theory Spec2Isabelle
  imports Complex_Main "HOL-Library.Multiset" "HOL-Library.Sublist"
    "HOL-Library.Code_Target_Numeral"
begin

section \<open>Python values\<close>

text \<open>
  A Python \<open>str\<close> is a sequence of Unicode code points; it is modelled as the list of
  their numbers, so that the non-breaking space (160) and the Cyrillic channel labels of
  the source are ordinary elements. \<open>asc\<close> turns an ASCII literal into such a list.
\<close>

type_synonym pystr = "nat list"

definition asc :: "string \<Rightarrow> pystr" where
  "asc s = map (of_char :: char \<Rightarrow> nat) s"

text \<open>
  A Python \<open>float\<close> is modelled by the real number it denotes, or one of the three special
  values. Arithmetic on finite values is exact: rounding to binary64, overflow to
  infinity and the sign of zero are not modelled.
\<close>

datatype pyfloat = Finite real | PosInf | NegInf | NaN

text \<open>
  The values \<open>parse_number\<close> tells apart; \<open>PNone\<close> stands for \<open>None\<close> and for any other
  object that is neither a number nor a string.
\<close>

datatype pyval = PInt int | PFloat pyfloat | PBool bool | PStr pystr | PNone

datatype error = OverflowError | ZeroDivisionError

text \<open>
  Addition of floats in exact arithmetic: finite values add as real numbers, with no
  rounding and no overflow; the special values combine as IEEE 754 has them. The rounded
  addition of the interpreter is \<open>fadd64\<close> below.
\<close>

fun fadd :: "pyfloat \<Rightarrow> pyfloat \<Rightarrow> pyfloat" where
  "fadd (Finite x) (Finite y) = Finite (x + y)"
| "fadd NaN _ = NaN"
| "fadd _ NaN = NaN"
| "fadd PosInf NegInf = NaN"
| "fadd NegInf PosInf = NaN"
| "fadd PosInf _ = PosInf"
| "fadd _ PosInf = PosInf"
| "fadd NegInf _ = NegInf"
| "fadd _ NegInf = NegInf"

section \<open>Binary64 arithmetic\<close>

text \<open>
  The floats of the interpreter are binary64 values: a result is the exact result rounded
  to 53 significant bits, ties to the even neighbour, with the spacing of the lowest
  binade below it and an infinity from \<open>2^1024\<close> on. \<open>round64\<close> is that rounding, and the
  functions named with 64 are the operations of the code with every float result rounded.
  \<open>fadd\<close> above and the functions built on it are the same operations in exact arithmetic.
\<close>

definition round_half_even :: "real \<Rightarrow> nat" where
  "round_half_even r =
     (let f = nat \<lfloor>r\<rfloor>; d = r - real f in
      if d < 1 / 2 then f else if 1 / 2 < d then f + 1 else if even f then f else f + 1)"

fun bit_length :: "nat \<Rightarrow> nat" where
  "bit_length n = (if n = 0 then 0 else Suc (bit_length (n div 2)))"

declare bit_length.simps [simp del]

definition scale2 :: "real \<Rightarrow> int \<Rightarrow> real" where
  "scale2 x e = (if 0 \<le> e then x * 2 ^ nat e else x / 2 ^ nat (- e))"

text \<open>The exponent \<open>e\<close> with \<open>2^e \<le> |x| < 2^(e+1)\<close>, for \<open>x\<close> other than 0.\<close>

definition binade :: "real \<Rightarrow> int" where
  "binade x = (if 1 \<le> \<bar>x\<bar> then int (bit_length (nat \<lfloor>\<bar>x\<bar>\<rfloor>)) - 1
               else - int (bit_length (nat \<lceil>1 / \<bar>x\<bar>\<rceil> - 1)))"

definition round64 :: "real \<Rightarrow> pyfloat" where
  "round64 x =
     (if x = 0 then Finite 0
      else let e = max (binade x) (- 1022);
               m = round_half_even (scale2 \<bar>x\<bar> (52 - e));
               y = scale2 (real m) (e - 52)
           in if 2 ^ 1024 \<le> y then (if x < 0 then NegInf else PosInf)
              else Finite (if x < 0 then - y else y))"

fun fadd64 :: "pyfloat \<Rightarrow> pyfloat \<Rightarrow> pyfloat" where
  "fadd64 (Finite x) (Finite y) = round64 (x + y)"
| "fadd64 NaN _ = NaN"
| "fadd64 _ NaN = NaN"
| "fadd64 PosInf NegInf = NaN"
| "fadd64 NegInf PosInf = NaN"
| "fadd64 PosInf _ = PosInf"
| "fadd64 _ PosInf = PosInf"
| "fadd64 NegInf _ = NegInf"
| "fadd64 _ NegInf = NegInf"

section \<open>String methods used by the source\<close>

text \<open>The characters \<open>str.strip()\<close> removes: those for which \<open>str.isspace\<close> holds.\<close>

definition py_isspace :: "nat \<Rightarrow> bool" where
  "py_isspace c \<longleftrightarrow>
     (9 \<le> c \<and> c \<le> 13) \<or> (28 \<le> c \<and> c \<le> 32) \<or> c = 133 \<or> c = 160 \<or> c = 5760 \<or>
     (8192 \<le> c \<and> c \<le> 8202) \<or> c = 8232 \<or> c = 8233 \<or> c = 8239 \<or> c = 8287 \<or> c = 12288"

definition lstrip_by :: "(nat \<Rightarrow> bool) \<Rightarrow> pystr \<Rightarrow> pystr" where
  "lstrip_by P s = dropWhile P s"

definition rstrip_by :: "(nat \<Rightarrow> bool) \<Rightarrow> pystr \<Rightarrow> pystr" where
  "rstrip_by P s = rev (dropWhile P (rev s))"

definition strip_by :: "(nat \<Rightarrow> bool) \<Rightarrow> pystr \<Rightarrow> pystr" where
  "strip_by P s = rstrip_by P (lstrip_by P s)"

text \<open>\<open>s.strip()\<close>\<close>

definition py_strip :: "pystr \<Rightarrow> pystr" where
  "py_strip s = strip_by py_isspace s"

text \<open>\<open>s.replace(a, b)\<close> for one-character \<open>a\<close> and \<open>b\<close>, and \<open>s.replace(a, '')\<close>.\<close>

definition replace_char :: "nat \<Rightarrow> nat \<Rightarrow> pystr \<Rightarrow> pystr" where
  "replace_char a b s = map (\<lambda>c. if c = a then b else c) s"

definition remove_char :: "nat \<Rightarrow> pystr \<Rightarrow> pystr" where
  "remove_char a s = filter (\<lambda>c. c \<noteq> a) s"

text \<open>\<open>s.endswith(c)\<close> and \<open>s.rstrip(c)\<close> for a one-character \<open>c\<close>.\<close>

definition endswith_char :: "nat \<Rightarrow> pystr \<Rightarrow> bool" where
  "endswith_char c s \<longleftrightarrow> s \<noteq> [] \<and> last s = c"

definition rstrip_char :: "nat \<Rightarrow> pystr \<Rightarrow> pystr" where
  "rstrip_char c s = rstrip_by (\<lambda>d. d = c) s"

section \<open>The built-in \<open>float\<close> on strings\<close>

text \<open>
  \<open>float(s)\<close> on a string: surrounding whitespace is dropped, underscores are checked
  (each between two digits) and removed, and the rest must be, as a whole, an
  optionally signed \<open>inf\<close>, \<open>infinity\<close> or \<open>nan\<close> in any case, or an optionally signed
  decimal number with an optional exponent. \<open>None\<close> stands for \<open>ValueError\<close>.
  Decimal digits are the ASCII ones; the other characters of Unicode category Nd, which
  CPython also reads as digits, are outside the model.
\<close>

definition is_digit :: "nat \<Rightarrow> bool" where
  "is_digit c \<longleftrightarrow> 48 \<le> c \<and> c \<le> 57"

definition digits_val :: "pystr \<Rightarrow> nat" where
  "digits_val ds = foldl (\<lambda>a c. 10 * a + (c - 48)) 0 ds"

text \<open>The underscore pass: \<open>prev\<close> is the previous character (0 at the start).\<close>

fun strip_underscores :: "nat \<Rightarrow> pystr \<Rightarrow> pystr option" where
  "strip_underscores prev [] = (if prev = 95 then None else Some [])"
| "strip_underscores prev (c # cs) =
     (if c = 95 then
        (if is_digit prev then strip_underscores c cs else None)
      else if prev = 95 \<and> \<not> is_digit c then None
      else map_option ((#) c) (strip_underscores c cs))"

text \<open>Whitespace as \<open>float\<close> sees it: non-ASCII spaces are first turned into blanks.\<close>

definition float_isspace :: "nat \<Rightarrow> bool" where
  "float_isspace c \<longleftrightarrow> (9 \<le> c \<and> c \<le> 13) \<or> c = 32 \<or> (127 < c \<and> py_isspace c)"

definition to_lower :: "nat \<Rightarrow> nat" where
  "to_lower c = (if 65 \<le> c \<and> c \<le> 90 then c + 32 else c)"

definition split_sign :: "pystr \<Rightarrow> bool \<times> pystr" where
  "split_sign s = (case s of [] \<Rightarrow> (False, [])
     | c # t \<Rightarrow> if c = 45 then (True, t) else if c = 43 then (False, t) else (False, s))"

text \<open>The exponent part: empty, or \<open>e\<close>/\<open>E\<close>, an optional sign and at least one digit.\<close>

definition parse_exponent :: "pystr \<Rightarrow> int option" where
  "parse_exponent s = (case s of [] \<Rightarrow> Some 0
     | c # t \<Rightarrow>
         if c = 101 \<or> c = 69 then
           (let (neg, ds) = split_sign t in
            if ds \<noteq> [] \<and> list_all is_digit ds
            then Some (if neg then - int (digits_val ds) else int (digits_val ds))
            else None)
         else None)"

definition scale10 :: "real \<Rightarrow> int \<Rightarrow> real" where
  "scale10 x e = (if 0 \<le> e then x * 10 ^ nat e else x / 10 ^ nat (- e))"

definition parse_decimal :: "pystr \<Rightarrow> real option" where
  "parse_decimal s =
     (let ip = takeWhile is_digit s; r1 = dropWhile is_digit s;
          (fp, r2) = (case r1 of [] \<Rightarrow> ([], [])
             | c # t \<Rightarrow> if c = 46 then (takeWhile is_digit t, dropWhile is_digit t)
                        else ([], r1))
      in if ip = [] \<and> fp = [] then None
         else case parse_exponent r2 of
           None \<Rightarrow> None
         | Some e \<Rightarrow> Some (scale10 (real (digits_val (ip @ fp))) (e - int (length fp))))"

definition parse_float_body :: "pystr \<Rightarrow> pyfloat option" where
  "parse_float_body s =
     (let (neg, t) = split_sign s; l = map to_lower t in
      if l = asc ''inf'' \<or> l = asc ''infinity'' then Some (if neg then NegInf else PosInf)
      else if l = asc ''nan'' then Some NaN
      else case parse_decimal t of
        None \<Rightarrow> None
      | Some x \<Rightarrow> Some (Finite (if neg then - x else x)))"

definition py_float :: "pystr \<Rightarrow> pyfloat option" where
  "py_float s = (case strip_underscores 0 (strip_by float_isspace s) of
       None \<Rightarrow> None
     | Some t \<Rightarrow> parse_float_body t)"

text \<open>The characters an accepted literal can contain, underscores apart.\<close>

definition float_char :: "nat \<Rightarrow> bool" where
  "float_char c \<longleftrightarrow>
     is_digit c \<or> c = 46 \<or> c = 43 \<or> c = 45 \<or> (65 \<le> c \<and> c \<le> 90) \<or> (97 \<le> c \<and> c \<le> 122)"

text \<open>
  \<open>float(n)\<close> for an integer raises \<open>OverflowError\<close> when \<open>n\<close> rounds to a magnitude of
  \<open>2^1024\<close> or more, that is from \<open>2^1024 - 2^970\<close> on.
\<close>

definition float_of_int :: "int \<Rightarrow> error + pyfloat" where
  "float_of_int n = (if \<bar>n\<bar> < 2 ^ 1024 - 2 ^ 970 then Inr (Finite (real_of_int n))
                     else Inl OverflowError)"

section \<open>parse_number\<close>

text \<open>
  \<open>isinstance(v, (int, float))\<close> holds for integers, booleans and floats. The string
  branch catches \<open>ValueError\<close> only, which is all \<open>float\<close> raises on a string.
\<close>

definition parse_number :: "pyval \<Rightarrow> error + pyfloat" where
  "parse_number v = (case v of
       PInt n \<Rightarrow> float_of_int n
     | PBool b \<Rightarrow> Inr (Finite (if b then 1 else 0))
     | PFloat x \<Rightarrow> Inr x
     | PStr v \<Rightarrow>
         (let s = py_strip (remove_char 160 v);
              is_percent = endswith_char 37 s;
              s = (if is_percent then py_strip (rstrip_char 37 s) else s);
              s = replace_char 44 46 s
          in case py_float s of
               None \<Rightarrow> Inr (Finite 0)
             | Some num \<Rightarrow> Inr num)
     | PNone \<Rightarrow> Inr (Finite 0))"

text \<open>The string the string branch hands to \<open>float\<close>: the value of \<open>s\<close> at line 64.\<close>

definition normalized :: "pystr \<Rightarrow> pystr" where
  "normalized v =
     (let s = py_strip (remove_char 160 v);
          is_percent = endswith_char 37 s;
          s = (if is_percent then py_strip (rstrip_char 37 s) else s)
      in replace_char 44 46 s)"

section \<open>Dates and \<open>strptime\<close>\<close>

record pydate =
  year :: nat
  month :: nat
  day :: nat

text \<open>Dates compare as the triples (year, month, day).\<close>

definition date_le :: "pydate \<Rightarrow> pydate \<Rightarrow> bool" where
  "date_le a b \<longleftrightarrow>
     year a < year b \<or>
     (year a = year b \<and> (month a < month b \<or> (month a = month b \<and> day a \<le> day b)))"

definition is_leap :: "nat \<Rightarrow> bool" where
  "is_leap y \<longleftrightarrow> y mod 4 = 0 \<and> (y mod 100 \<noteq> 0 \<or> y mod 400 = 0)"

definition days_in_month :: "nat \<Rightarrow> nat \<Rightarrow> nat" where
  "days_in_month y m =
     (if m = 2 then (if is_leap y then 29 else 28)
      else if m = 4 \<or> m = 6 \<or> m = 9 \<or> m = 11 then 30 else 31)"

text \<open>The constructor \<open>date(y, m, d)\<close>; \<open>None\<close> stands for its \<open>ValueError\<close>.\<close>

definition make_date :: "nat \<Rightarrow> nat \<Rightarrow> nat \<Rightarrow> pydate option" where
  "make_date y m d =
     (if 1 \<le> y \<and> y \<le> 9999 \<and> 1 \<le> m \<and> m \<le> 12 \<and> 1 \<le> d \<and> d \<le> days_in_month y m
      then Some \<lparr>year = y, month = m, day = d\<rparr> else None)"

text \<open>
  \<open>strptime\<close> turns the format \<open>%d.%m.%Y\<close> into a regular expression that must match the
  whole string: for the day \<open>3[0-1]|[1-2]\d|0[1-9]|[1-9]| [1-9]\<close>, for the month
  \<open>1[0-2]|0[1-9]|[1-9]\<close>, for the year \<open>\d\d\d\d\<close>, with a literal dot between them. No
  alternative contains a dot, so the fields end at the first and the second dot.
\<close>

fun parse_day :: "pystr \<Rightarrow> nat option" where
  "parse_day [a, b] =
     (if a = 51 \<and> (b = 48 \<or> b = 49) then Some (30 + (b - 48))
      else if (a = 49 \<or> a = 50) \<and> is_digit b then Some (10 * (a - 48) + (b - 48))
      else if a = 48 \<and> 49 \<le> b \<and> b \<le> 57 then Some (b - 48)
      else if a = 32 \<and> 49 \<le> b \<and> b \<le> 57 then Some (b - 48)
      else None)"
| "parse_day [a] = (if 49 \<le> a \<and> a \<le> 57 then Some (a - 48) else None)"
| "parse_day _ = None"

fun parse_month :: "pystr \<Rightarrow> nat option" where
  "parse_month [a, b] =
     (if a = 49 \<and> 48 \<le> b \<and> b \<le> 50 then Some (10 + (b - 48))
      else if a = 48 \<and> 49 \<le> b \<and> b \<le> 57 then Some (b - 48)
      else None)"
| "parse_month [a] = (if 49 \<le> a \<and> a \<le> 57 then Some (a - 48) else None)"
| "parse_month _ = None"

definition parse_year :: "pystr \<Rightarrow> nat option" where
  "parse_year s = (if length s = 4 \<and> list_all is_digit s then Some (digits_val s) else None)"

definition strptime_dmy :: "pystr \<Rightarrow> pydate option" where
  "strptime_dmy s =
     (let d = takeWhile (\<lambda>c. c \<noteq> 46) s; r = dropWhile (\<lambda>c. c \<noteq> 46) s in
      case r of [] \<Rightarrow> None
      | _ # r1 \<Rightarrow>
          (let m = takeWhile (\<lambda>c. c \<noteq> 46) r1; r2 = dropWhile (\<lambda>c. c \<noteq> 46) r1 in
           case r2 of [] \<Rightarrow> None
           | _ # y \<Rightarrow>
               (case (parse_day d, parse_month m, parse_year y) of
                  (Some dd, Some mm, Some yy) \<Rightarrow> make_date yy mm dd
                | _ \<Rightarrow> None)))"

section \<open>fetch_data\<close>

text \<open>
  The request asks for \<open>FORMATTED_VALUE\<close>, so every cell of a row is a string. A record
  is the dictionary appended at lines 90 to 97.
\<close>

record sales_row =
  date :: pydate
  batons :: pyfloat
  sales :: pyfloat
  type :: pystr
  expense :: pyfloat
  margin :: pyfloat

text \<open>
  The body of the loop for one row: \<open>Inr None\<close> is \<open>continue\<close>, \<open>Inr (Some r)\<close> the
  appended record, \<open>Inl e\<close> an exception leaving the loop.
\<close>

definition parse_row :: "pystr list \<Rightarrow> error + sales_row option" where
  "parse_row row =
     (if length row < 6 then Inr None
      else case strptime_dmy (row ! 0) of
        None \<Rightarrow> Inr None
      | Some date_obj \<Rightarrow>
          (case parse_number (PStr (row ! 1)) of Inl e \<Rightarrow> Inl e | Inr b \<Rightarrow>
           case parse_number (PStr (row ! 2)) of Inl e \<Rightarrow> Inl e | Inr s \<Rightarrow>
           case parse_number (PStr (row ! 4)) of Inl e \<Rightarrow> Inl e | Inr x \<Rightarrow>
           case parse_number (PStr (row ! 5)) of Inl e \<Rightarrow> Inl e | Inr m \<Rightarrow>
             Inr (Some \<lparr>date = date_obj, batons = b, sales = s, type = row ! 3,
                        expense = x, margin = m\<rparr>)))"

fun rows_loop :: "sales_row list \<Rightarrow> pystr list list \<Rightarrow> error + sales_row list" where
  "rows_loop data [] = Inr data"
| "rows_loop data (row # rest) =
     (case parse_row row of
        Inl e \<Rightarrow> Inl e
      | Inr None \<Rightarrow> rows_loop data rest
      | Inr (Some r) \<Rightarrow> rows_loop (data @ [r]) rest)"

text \<open>
  The outcome of the request: it raised, or it returned a response with or without a
  \<open>values\<close> entry. Any exception, of the request or of the loop, gives the empty list.
\<close>

datatype api_result = ApiFailure | ApiResponse "pystr list list option"

definition fetch_data :: "api_result \<Rightarrow> sales_row list" where
  "fetch_data res = (case res of
       ApiFailure \<Rightarrow> []
     | ApiResponse vs \<Rightarrow>
         (let values = (case vs of None \<Rightarrow> [] | Some v \<Rightarrow> v) in
          case rows_loop [] (drop 1 values) of Inl e \<Rightarrow> [] | Inr data \<Rightarrow> data))"

section \<open>filter_data\<close>

definition filter_data :: "sales_row list \<Rightarrow> pydate option \<Rightarrow> pydate option \<Rightarrow> sales_row list" where
  "filter_data data start_date end_date =
     [item \<leftarrow> data.
        (case start_date of None \<Rightarrow> True | Some s \<Rightarrow> date_le s (date item)) \<and>
        (case end_date of None \<Rightarrow> True | Some e \<Rightarrow> date_le (date item) e)]"

text \<open>
  The condition in the words of the specification: the start is absent or the date is on
  or after it, and the end is absent or the date is on or before it.
\<close>

definition in_period :: "pydate option \<Rightarrow> pydate option \<Rightarrow> pydate \<Rightarrow> bool" where
  "in_period start_date end_date d \<longleftrightarrow>
     (start_date = None \<or> date_le (the start_date) d) \<and>
     (end_date = None \<or> date_le d (the end_date))"

section \<open>compute_report\<close>

text \<open>
  \<open>sum\<close> starts from the integer 0 and adds the items from left to right; the items here
  are floats, so the result is the integer 0 for no item and a float otherwise.
\<close>

datatype pynum = NInt int | NFloat pyfloat

fun num_float :: "pynum \<Rightarrow> pyfloat" where
  "num_float (NInt n) = Finite (real_of_int n)"
| "num_float (NFloat x) = x"

definition py_sum :: "pyfloat list \<Rightarrow> pynum" where
  "py_sum xs = foldl (\<lambda>acc x. NFloat (fadd (num_float acc) x)) (NInt 0) xs"


text \<open>A float divided by a positive count, and \<open>/\<close> by a length.\<close>

fun fdiv_count :: "pyfloat \<Rightarrow> nat \<Rightarrow> pyfloat" where
  "fdiv_count (Finite x) n = Finite (x / real n)"
| "fdiv_count PosInf n = PosInf"
| "fdiv_count NegInf n = NegInf"
| "fdiv_count NaN n = NaN"

definition py_truediv :: "pynum \<Rightarrow> nat \<Rightarrow> error + pyfloat" where
  "py_truediv a n = (if n = 0 then Inl ZeroDivisionError else Inr (fdiv_count (num_float a) n))"

definition online_label :: pystr where
  "online_label = [1054, 1085, 1083, 1072, 1081, 1085]"

definition fop_label :: pystr where
  "fop_label = [1060, 1054, 1055]"

record report =
  total_batons :: pynum
  total_sales :: pynum
  total_online :: pynum
  total_fop :: pynum
  total_expense :: pynum
  avg_margin :: pyfloat
  avg_online :: pyfloat
  avg_fop :: pyfloat

text \<open>\<open>sum(ms) / len(ms) if ms else 0.0\<close>\<close>

definition average :: "pyfloat list \<Rightarrow> error + pyfloat" where
  "average ms = (if ms \<noteq> [] then py_truediv (py_sum ms) (length ms) else Inr (Finite 0))"

definition compute_report :: "sales_row list \<Rightarrow> error + report" where
  "compute_report rows =
     (let margins = [margin item. item \<leftarrow> rows];
          margins_online = [margin item. item \<leftarrow> rows, type item = online_label];
          margins_fop = [margin item. item \<leftarrow> rows, type item = fop_label]
      in case average margins of Inl e \<Rightarrow> Inl e | Inr am \<Rightarrow>
         case average margins_online of Inl e \<Rightarrow> Inl e | Inr ao \<Rightarrow>
         case average margins_fop of Inl e \<Rightarrow> Inl e | Inr af \<Rightarrow>
           Inr \<lparr>total_batons = py_sum [batons item. item \<leftarrow> rows],
                total_sales = py_sum [sales item. item \<leftarrow> rows],
                total_online = py_sum [sales item. item \<leftarrow> rows, type item = online_label],
                total_fop = py_sum [sales item. item \<leftarrow> rows, type item = fop_label],
                total_expense = py_sum [expense item. item \<leftarrow> rows],
                avg_margin = am, avg_online = ao, avg_fop = af\<rparr>)"

text \<open>
  The same function on binary64: \<open>sum\<close> adds from left to right and rounds each addition,
  and the division rounds its quotient.
\<close>

definition py_sum64 :: "pyfloat list \<Rightarrow> pynum" where
  "py_sum64 xs = foldl (\<lambda>acc x. NFloat (fadd64 (num_float acc) x)) (NInt 0) xs"

fun fdiv_count64 :: "pyfloat \<Rightarrow> nat \<Rightarrow> pyfloat" where
  "fdiv_count64 (Finite x) n = round64 (x / real n)"
| "fdiv_count64 PosInf n = PosInf"
| "fdiv_count64 NegInf n = NegInf"
| "fdiv_count64 NaN n = NaN"

definition py_truediv64 :: "pynum \<Rightarrow> nat \<Rightarrow> error + pyfloat" where
  "py_truediv64 a n =
     (if n = 0 then Inl ZeroDivisionError else Inr (fdiv_count64 (num_float a) n))"

definition average64 :: "pyfloat list \<Rightarrow> error + pyfloat" where
  "average64 ms = (if ms \<noteq> [] then py_truediv64 (py_sum64 ms) (length ms) else Inr (Finite 0))"

definition compute_report64 :: "sales_row list \<Rightarrow> error + report" where
  "compute_report64 rows =
     (let margins = [margin item. item \<leftarrow> rows];
          margins_online = [margin item. item \<leftarrow> rows, type item = online_label];
          margins_fop = [margin item. item \<leftarrow> rows, type item = fop_label]
      in case average64 margins of Inl e \<Rightarrow> Inl e | Inr am \<Rightarrow>
         case average64 margins_online of Inl e \<Rightarrow> Inl e | Inr ao \<Rightarrow>
         case average64 margins_fop of Inl e \<Rightarrow> Inl e | Inr af \<Rightarrow>
           Inr \<lparr>total_batons = py_sum64 [batons item. item \<leftarrow> rows],
                total_sales = py_sum64 [sales item. item \<leftarrow> rows],
                total_online = py_sum64 [sales item. item \<leftarrow> rows, type item = online_label],
                total_fop = py_sum64 [sales item. item \<leftarrow> rows, type item = fop_label],
                total_expense = py_sum64 [expense item. item \<leftarrow> rows],
                avg_margin = am, avg_online = ao, avg_fop = af\<rparr>)"

section \<open>format_report\<close>

text \<open>Decimal digits of a natural number and of an integer, as \<open>str\<close> prints them.\<close>

fun nat_digits :: "nat \<Rightarrow> pystr" where
  "nat_digits n = (if n < 10 then [48 + n] else nat_digits (n div 10) @ [48 + n mod 10])"

declare nat_digits.simps [simp del]

definition int_str :: "int \<Rightarrow> pystr" where
  "int_str n = (if n < 0 then [45] else []) @ nat_digits (nat \<bar>n\<bar>)"

text \<open>
  \<open>strftime('%d.%m.%Y')\<close>: day and month with two digits, zero-padded, and the digits of
  the year, which the C library does not pad (from the year 1000 on they are four).
\<close>

definition zfill :: "nat \<Rightarrow> pystr \<Rightarrow> pystr" where
  "zfill k s = replicate (k - length s) 48 @ s"

definition strftime_dmy :: "pydate \<Rightarrow> pystr" where
  "strftime_dmy d =
     zfill 2 (nat_digits (day d)) @ [46] @ zfill 2 (nat_digits (month d)) @ [46] @
     nat_digits (year d)"

text \<open>
  The float behind a value of the model: a finite value stands for the binary64 float
  nearest to it. The sign of a zero is not modelled.
\<close>

definition to_float64 :: "pyfloat \<Rightarrow> pyfloat" where
  "to_float64 x = (case x of Finite r \<Rightarrow> round64 r | _ \<Rightarrow> x)"

text \<open>
  A replacement field without a format prints \<open>str\<close> of the value. For a float that is
  \<open>repr\<close>: the shortest string of decimal digits that reads back as the same float and,
  among those of that length, the nearest one, a tie going to the even last digit.

  \<open>dec_exp a\<close> is the decimal exponent \<open>e\<close> with \<open>10^e \<le> a < 10^(e+1)\<close>, for \<open>a > 0\<close>.
  \<open>repr_try a n\<close> looks for \<open>n\<close> digits: the candidates are the two neighbours of \<open>a\<close>
  among the numbers \<open>m * 10^k\<close> with \<open>n\<close> digits, and the result is \<open>(m, k)\<close>.
  Seventeen digits always suffice for a binary64 value.
\<close>

definition dec_exp :: "real \<Rightarrow> int" where
  "dec_exp a = (if 1 \<le> a then int (length (nat_digits (nat \<lfloor>a\<rfloor>))) - 1
                else - int (length (nat_digits (nat \<lceil>1 / a\<rceil> - 1))))"

definition repr_try :: "real \<Rightarrow> nat \<Rightarrow> (nat \<times> int) option" where
  "repr_try a n =
     (let k = dec_exp a - int n + 1;
          lo = nat \<lfloor>scale10 a (- k)\<rfloor>; hi = lo + 1;
          ok_lo = (round64 (scale10 (real lo) k) = Finite a);
          ok_hi = (round64 (scale10 (real hi) k) = Finite a);
          d_lo = a - scale10 (real lo) k; d_hi = scale10 (real hi) k - a
      in if ok_lo \<and> (\<not> ok_hi \<or> d_lo < d_hi \<or> (d_lo = d_hi \<and> even lo)) then Some (lo, k)
         else if ok_hi then Some (hi, k)
         else None)"

fun first_repr :: "real \<Rightarrow> nat list \<Rightarrow> nat \<times> int" where
  "first_repr a [] = (round_half_even (scale10 a (16 - dec_exp a)), dec_exp a - 16)"
| "first_repr a (n # ns) = (case repr_try a n of Some p \<Rightarrow> p | None \<Rightarrow> first_repr a ns)"

definition shortest_digits :: "real \<Rightarrow> nat \<times> int" where
  "shortest_digits a = first_repr a [1, 2, 3, 4, 5, 6, 7, 8, 9, 10, 11, 12, 13, 14, 15, 16, 17]"

text \<open>
  The digits \<open>ds\<close> and the position \<open>decpt\<close> of the decimal point (the value is
  \<open>0.ds * 10^decpt\<close>) are laid out with an exponent when \<open>decpt\<close> is below -3 or above 16,
  and positionally otherwise, with \<open>.0\<close> after an integer.
\<close>

definition repr_layout :: "pystr \<Rightarrow> int \<Rightarrow> pystr" where
  "repr_layout ds decpt =
     (if decpt \<le> - 4 \<or> 16 < decpt then
        hd ds # (if tl ds = [] then [] else 46 # tl ds) @ [101] @
        (if decpt - 1 < 0 then [45] else [43]) @ zfill 2 (nat_digits (nat \<bar>decpt - 1\<bar>))
      else if decpt \<le> 0 then [48, 46] @ replicate (nat (- decpt)) 48 @ ds
      else if int (length ds) \<le> decpt then
        ds @ replicate (nat decpt - length ds) 48 @ [46, 48]
      else take (nat decpt) ds @ [46] @ drop (nat decpt) ds)"

definition repr_pos :: "real \<Rightarrow> pystr" where
  "repr_pos a =
     (let (m, k) = shortest_digits a; all = nat_digits m
      in repr_layout (rstrip_char 48 all) (int (length all) + k))"

definition float_str :: "pyfloat \<Rightarrow> pystr" where
  "float_str x = (case to_float64 x of
       Finite q \<Rightarrow>
         (if q = 0 then asc ''0.0'' else (if q < 0 then [45] else []) @ repr_pos \<bar>q\<bar>)
     | PosInf \<Rightarrow> asc ''inf''
     | NegInf \<Rightarrow> asc ''-inf''
     | NaN \<Rightarrow> asc ''nan'')"

definition py_str :: "pynum \<Rightarrow> pystr" where
  "py_str v = (case v of NInt n \<Rightarrow> int_str n | NFloat x \<Rightarrow> float_str x)"

text \<open>
  The format \<open>.2f\<close>: the sign, the integer part, a dot and two digits, of the float rounded
  to hundredths with ties to the even neighbour; the special values print their names.
\<close>

definition fmt_2f :: "pyfloat \<Rightarrow> pystr" where
  "fmt_2f x = (case to_float64 x of
       Finite q \<Rightarrow>
         (let n = round_half_even (\<bar>q\<bar> * 100) in
          (if q < 0 then [45] else []) @ nat_digits (n div 100) @ [46] @
          [48 + (n mod 100) div 10, 48 + n mod 10])
     | PosInf \<Rightarrow> asc ''inf''
     | NegInf \<Rightarrow> asc ''-inf''
     | NaN \<Rightarrow> asc ''nan'')"

text \<open>The literal parts of the two f-strings, as code points.\<close>

definition label_header :: pystr where
  "label_header = [128202, 32, 1047, 1074, 1110, 1090, 32, 1063, 1110, 1085, 1072, 1079, 1077,
                   1089, 32, 1079, 1072, 32]"

definition label_batons :: pystr where
  "label_batons = [128313, 32, 1041, 1072, 1090, 1086, 1085, 1110, 1074, 32, 1087, 1088, 1086,
                   1076, 1072, 1085, 1086, 58, 32]"

definition label_sales :: pystr where
  "label_sales = [128313, 32, 1057, 1091, 1084, 1072, 32, 1087, 1088, 1086, 1076, 1072, 1078,
                  1110, 1074, 58, 32]"

definition label_online :: pystr where
  "label_online = [128179, 32, 1060, 1054, 1055, 45, 1086, 1085, 1083, 1072, 1081, 1085, 58, 32]"

definition label_fop :: pystr where
  "label_fop = [129309, 32, 1060, 1054, 1055, 45, 1060, 1054, 1055, 58, 32]"

definition label_expense :: pystr where
  "label_expense = [128184, 32, 1042, 1080, 1090, 1088, 1072, 1090, 1080, 58, 32]"

definition label_avg_margin :: pystr where
  "label_avg_margin = [128200, 32, 1057, 1077, 1088, 1077, 1076, 1085, 1103, 32, 1084, 1072,
                       1088, 1078, 1072, 58, 32]"

definition label_avg_online :: pystr where
  "label_avg_online = [45, 32, 1054, 1085, 1083, 1072, 1081, 1085, 58, 32]"

definition label_avg_fop :: pystr where
  "label_avg_fop = [45, 32, 1060, 1054, 1055, 58, 32]"

definition format_report :: "pydate \<Rightarrow> pydate \<Rightarrow> report \<Rightarrow> pystr" where
  "format_report start_date end_date stats =
     (let header = label_header @ strftime_dmy start_date @ [8211] @ strftime_dmy end_date @
                   [10, 10];
          body = label_batons @ py_str (total_batons stats) @ [10] @
                 label_sales @ py_str (total_sales stats) @ [10, 10] @
                 label_online @ py_str (total_online stats) @ [10] @
                 label_fop @ py_str (total_fop stats) @ [10, 10] @
                 label_expense @ py_str (total_expense stats) @ [10, 10] @
                 label_avg_margin @ fmt_2f (avg_margin stats) @ [37, 10] @
                 label_avg_online @ fmt_2f (avg_online stats) @ [37, 10] @
                 label_avg_fop @ fmt_2f (avg_fop stats) @ [37, 10]
      in header @ body)"

text \<open>
  A text with exactly two decimal digits: an optional minus sign, one or more digits, a dot
  and two digits.
\<close>

definition two_decimals :: "pystr \<Rightarrow> bool" where
  "two_decimals s = (case rev s of
       d2 # d1 # dot # rip \<Rightarrow>
         (let ip = rev rip;
              body = (case ip of [] \<Rightarrow> [] | c # r \<Rightarrow> if c = 45 then r else ip)
          in dot = 46 \<and> is_digit d1 \<and> is_digit d2 \<and> body \<noteq> [] \<and> list_all is_digit body)
     | _ \<Rightarrow> False)"

section \<open>Evaluating binary64 rounding\<close>

lemma bit_length_0: "bit_length 0 = 0"
  by (simp add: bit_length.simps [of 0])

lemma bit_length_pos: "0 < n \<Longrightarrow> bit_length n = Suc (bit_length (n div 2))"
  by (simp add: bit_length.simps [of n])

lemmas round64_eval = round64_def binade_def scale2_def round_half_even_def Let_def
  bit_length_0 bit_length_pos

lemma round64_zero [simp]: "round64 0 = Finite 0"
  by (simp add: round64_def)

lemma round64_examples:
  "round64 1 = Finite 1"
  "round64 2 = Finite 2"
  "round64 9007199254740993 = Finite 9007199254740992"
  "round64 9007199254740994 = Finite 9007199254740994"
  by (simp_all add: round64_eval)

section \<open>Evaluation and counting lemmas\<close>

lemmas str_defs = asc_def py_strip_def strip_by_def lstrip_by_def rstrip_by_def py_isspace_def
  replace_char_def remove_char_def endswith_char_def rstrip_char_def is_digit_def digits_val_def
  float_isspace_def to_lower_def split_sign_def parse_exponent_def scale10_def parse_decimal_def
  parse_float_body_def py_float_def parse_number_def

lemma parse_number_str:
  "parse_number (PStr v) = Inr (case py_float (normalized v) of None \<Rightarrow> Finite 0 | Some x \<Rightarrow> x)"
  by (simp add: parse_number_def normalized_def Let_def split: option.splits)

lemma count_dropWhile: "\<not> P c \<Longrightarrow> count_list (dropWhile P s) c = count_list s c"
  by (induction s) auto

lemma count_strip_by: "\<not> P c \<Longrightarrow> count_list (strip_by P s) c = count_list s c"
  by (simp add: strip_by_def lstrip_by_def rstrip_by_def count_dropWhile)

lemma count_remove_char: "c \<noteq> a \<Longrightarrow> count_list (remove_char a s) c = count_list s c"
  by (induction s) (auto simp: remove_char_def)

lemma count_replace_char:
  "a \<noteq> b \<Longrightarrow> count_list (replace_char a b s) b = count_list s a + count_list s b"
  by (induction s) (auto simp: replace_char_def)

lemma count_strip_underscores:
  "strip_underscores prev s = Some t \<Longrightarrow> c \<noteq> 95 \<Longrightarrow> count_list t c = count_list s c"
  by (induction prev s arbitrary: t rule: strip_underscores.induct)
     (auto split: if_splits)

lemma digits_no_dot: "list_all is_digit ds \<Longrightarrow> count_list ds 46 = 0"
  by (induction ds) (auto simp: is_digit_def)

lemma takeWhile_digit_no_dot: "count_list (takeWhile is_digit s) 46 = 0"
  by (induction s) (auto simp: is_digit_def)

lemma split_sign_count:
  "split_sign s = (neg, t) \<Longrightarrow> count_list s 46 = count_list t 46"
  by (auto simp: split_sign_def split: list.splits if_splits)

lemma parse_exponent_no_dot: "parse_exponent s = Some e \<Longrightarrow> count_list s 46 = 0"
  by (auto simp: parse_exponent_def digits_no_dot split: list.splits if_splits prod.splits
      dest!: split_sign_count)

lemma parse_decimal_dots: "parse_decimal s = Some x \<Longrightarrow> count_list s 46 \<le> 1"
proof -
  assume a: "parse_decimal s = Some x"
  have s: "count_list s 46 = count_list (dropWhile is_digit s) 46"
    using count_list_append [of "takeWhile is_digit s" "dropWhile is_digit s" 46]
    by (simp add: takeWhile_digit_no_dot)
  show ?thesis
  proof (cases "dropWhile is_digit s")
    case Nil
    show ?thesis unfolding s Nil by simp
  next
    case (Cons c t)
    show ?thesis
    proof (cases "c = 46")
      case True
      with a Cons have "\<exists>e. parse_exponent (dropWhile is_digit t) = Some e"
        by (auto simp: parse_decimal_def Let_def split: option.splits if_splits)
      then have "count_list (dropWhile is_digit t) 46 = 0"
        by (auto dest: parse_exponent_no_dot)
      moreover have "count_list t 46 = count_list (dropWhile is_digit t) 46"
        using count_list_append [of "takeWhile is_digit t" "dropWhile is_digit t" 46]
        by (simp add: takeWhile_digit_no_dot)
      ultimately show ?thesis using s Cons True by simp
    next
      case False
      with a Cons have "\<exists>e. parse_exponent (c # t) = Some e"
        by (auto simp: parse_decimal_def Let_def split: option.splits if_splits)
      then have "count_list (c # t) 46 = 0"
        by (auto dest: parse_exponent_no_dot)
      then show ?thesis using s Cons by simp
    qed
  qed
qed

lemma lower_literal_no_dot:
  "map to_lower t = l \<Longrightarrow> 46 \<notin> set l \<Longrightarrow> count_list t 46 = 0"
  by (induction t arbitrary: l) (auto simp: to_lower_def split: if_splits)

lemma parse_float_body_dots: "parse_float_body s = Some x \<Longrightarrow> count_list s 46 \<le> 1"
proof -
  assume a: "parse_float_body s = Some x"
  obtain neg t where st: "split_sign s = (neg, t)" by (cases "split_sign s")
  have c: "count_list s 46 = count_list t 46" using st by (rule split_sign_count)
  consider "map to_lower t = asc ''inf''" | "map to_lower t = asc ''infinity''"
    | "map to_lower t = asc ''nan''" | y where "parse_decimal t = Some y"
    using a st by (auto simp: parse_float_body_def Let_def split: if_splits option.splits)
  then show ?thesis
  proof cases
    case 1
    then show ?thesis using c lower_literal_no_dot [of t "asc ''inf''"] by (simp add: asc_def)
  next
    case 2
    then show ?thesis using c lower_literal_no_dot [of t "asc ''infinity''"] by (simp add: asc_def)
  next
    case 3
    then show ?thesis using c lower_literal_no_dot [of t "asc ''nan''"] by (simp add: asc_def)
  next
    case 4
    then show ?thesis using c parse_decimal_dots by simp
  qed
qed

lemma py_float_dots: "py_float s = Some x \<Longrightarrow> count_list s 46 \<le> 1"
proof -
  assume a: "py_float s = Some x"
  then obtain t where t: "strip_underscores 0 (strip_by float_isspace s) = Some t"
    and b: "parse_float_body t = Some x"
    by (auto simp: py_float_def split: option.splits)
  have "count_list (strip_by float_isspace s) 46 = count_list s 46"
    by (rule count_strip_by) (simp add: float_isspace_def py_isspace_def)
  moreover have "count_list t 46 = count_list (strip_by float_isspace s) 46"
    using t by (rule count_strip_underscores) simp
  ultimately show ?thesis using parse_float_body_dots [OF b] by simp
qed

lemma count_normalized_comma: "count_list (normalized v) 44 = 0"
  by (auto simp: normalized_def Let_def replace_char_def count_list_0_iff)

lemma count_normalized_dot: "count_list (normalized v) 46 = count_list v 44 + count_list v 46"
  by (simp add: normalized_def Let_def count_replace_char py_strip_def count_strip_by
      rstrip_char_def rstrip_by_def count_dropWhile count_remove_char py_isspace_def)

section \<open>Stripping lemmas\<close>

lemma dropWhile_all: "\<forall>c\<in>set s. P c \<Longrightarrow> dropWhile P s = []"
  by simp

lemma strip_by_pad:
  assumes "\<forall>c\<in>set w1. P c" "\<forall>c\<in>set w2. P c"
  shows "strip_by P (w1 @ s @ w2) = strip_by P s"
proof -
  have 1: "dropWhile P (w1 @ s @ w2) = dropWhile P (s @ w2)"
    using assms(1) by simp
  show ?thesis
  proof (cases "\<forall>c\<in>set s. P c")
    case True
    then have "dropWhile P (s @ w2) = []" "dropWhile P s = []"
      using assms(2) by auto
    then show ?thesis using 1
      by (simp add: strip_by_def lstrip_by_def rstrip_by_def del: dropWhile_eq_Nil_conv)
  next
    case False
    then have "dropWhile P (s @ w2) = dropWhile P s @ w2"
      by (auto simp: dropWhile_append)
    moreover have "dropWhile P (rev w2 @ rev (dropWhile P s)) = dropWhile P (rev (dropWhile P s))"
      by (rule dropWhile_append2) (use assms(2) in auto)
    ultimately show ?thesis using 1 by (simp add: strip_by_def lstrip_by_def rstrip_by_def)
  qed
qed

lemma strip_by_map:
  assumes "\<And>c. P (f c) = P c"
  shows "strip_by P (map f s) = map f (strip_by P s)"
proof -
  have "P \<circ> f = P" using assms by auto
  then show ?thesis
    by (simp add: strip_by_def lstrip_by_def rstrip_by_def dropWhile_map rev_map)
qed

lemma rstrip_by_decomp:
  "\<exists>b. s = rstrip_by P s @ b \<and> (\<forall>c\<in>set b. P c)"
proof -
  have "rev (takeWhile P (rev s) @ dropWhile P (rev s)) = rev (rev s)"
    by (simp only: takeWhile_dropWhile_id)
  then have "s = rstrip_by P s @ rev (takeWhile P (rev s))"
    by (simp only: rev_append rev_rev_ident rstrip_by_def)
  moreover have "\<forall>c\<in>set (rev (takeWhile P (rev s))). P c"
    by (auto dest: set_takeWhileD)
  ultimately show ?thesis by blast
qed

lemma strip_by_decomp:
  "\<exists>a b. s = a @ strip_by P s @ b \<and> (\<forall>c\<in>set a. P c) \<and> (\<forall>c\<in>set b. P c)"
proof -
  obtain b where b: "dropWhile P s = rstrip_by P (dropWhile P s) @ b" "\<forall>c\<in>set b. P c"
    using rstrip_by_decomp [of "dropWhile P s" P] by blast
  have "s = takeWhile P s @ dropWhile P s" by simp
  then have "s = takeWhile P s @ strip_by P s @ b"
    using b(1) by (simp add: strip_by_def lstrip_by_def)
  moreover have "\<forall>c\<in>set (takeWhile P s). P c" by (auto dest: set_takeWhileD)
  ultimately show ?thesis using b(2) by blast
qed

lemma rstrip_by_id: "s = [] \<or> \<not> P (last s) \<Longrightarrow> rstrip_by P s = s"
  by (cases s rule: rev_cases) (auto simp: rstrip_by_def)

lemma strip_by_id:
  assumes "m \<noteq> []" "\<not> P (hd m)" "\<not> P (last m)"
  shows "strip_by P m = m"
proof -
  have "dropWhile P m = m" using assms by (simp add: dropWhile_eq_self_iff)
  then show ?thesis using assms by (simp add: strip_by_def lstrip_by_def rstrip_by_id)
qed

lemma rstrip_by_last: "rstrip_by P s \<noteq> [] \<Longrightarrow> \<not> P (last (rstrip_by P s))"
proof -
  assume a: "rstrip_by P s \<noteq> []"
  then have r: "dropWhile P (rev s) \<noteq> []" by (simp add: rstrip_by_def)
  then have "\<not> P (hd (dropWhile P (rev s)))" by (rule hd_dropWhile)
  then show ?thesis using r by (simp add: rstrip_by_def last_rev)
qed

lemma rstrip_by_hd: "rstrip_by P s \<noteq> [] \<Longrightarrow> hd (rstrip_by P s) = hd s"
proof -
  assume a: "rstrip_by P s \<noteq> []"
  obtain b where b: "s = rstrip_by P s @ b" using rstrip_by_decomp by blast
  show ?thesis using a arg_cong [OF b, of hd] by simp
qed

lemma strip_by_ends:
  assumes "strip_by P s \<noteq> []"
  shows "\<not> P (hd (strip_by P s))" "\<not> P (last (strip_by P s))"
proof -
  have d: "dropWhile P s \<noteq> []"
  proof
    assume "dropWhile P s = []"
    then have "strip_by P s = []"
      by (simp add: strip_by_def lstrip_by_def rstrip_by_def del: dropWhile_eq_Nil_conv)
    with assms show False by simp
  qed
  have "hd (strip_by P s) = hd (dropWhile P s)"
    using assms rstrip_by_hd [of P "dropWhile P s"] by (simp add: strip_by_def lstrip_by_def)
  then show "\<not> P (hd (strip_by P s))" using hd_dropWhile [OF d] by simp
  show "\<not> P (last (strip_by P s))"
    using assms rstrip_by_last [of P "dropWhile P s"] by (simp add: strip_by_def lstrip_by_def)
qed

lemma strip_by_idem: "strip_by P (strip_by P s) = strip_by P s"
proof (cases "strip_by P s = []")
  case True
  have "strip_by P [] = []" by (simp add: strip_by_def lstrip_by_def rstrip_by_def)
  then show ?thesis by (simp only: True)
next
  case False
  then show ?thesis using strip_by_ends [OF False] by (simp add: strip_by_id)
qed


lemma rstrip_by_map:
  assumes "\<And>c. P (f c) = P c"
  shows "rstrip_by P (map f s) = map f (rstrip_by P s)"
proof -
  have "P \<circ> f = P" using assms by auto
  then show ?thesis by (simp add: rstrip_by_def dropWhile_map rev_map)
qed

lemma rstrip_by_snoc: "P c \<Longrightarrow> rstrip_by P (s @ [c]) = rstrip_by P s"
  by (simp add: rstrip_by_def)

lemma normalized_pad:
  assumes "\<forall>c\<in>set w1. py_isspace c" "\<forall>c\<in>set w2. py_isspace c"
  shows "normalized (w1 @ s @ w2) = normalized s"
proof -
  have "py_strip (remove_char 160 (w1 @ s @ w2)) = py_strip (remove_char 160 s)"
    unfolding py_strip_def remove_char_def filter_append
    by (rule strip_by_pad) (use assms in auto)
  then show ?thesis by (simp add: normalized_def)
qed

lemma normalized_comma: "normalized (replace_char 44 46 s) = normalized s"
proof -
  let ?f = "\<lambda>c::nat. if c = 44 then 46 else c"
  have sp: "py_isspace (?f c) = py_isspace c" for c by (simp add: py_isspace_def)
  have 1: "remove_char 160 (map ?f s) = map ?f (remove_char 160 s)" for s
    by (induction s) (auto simp: remove_char_def)
  have 2: "py_strip (map ?f s) = map ?f (py_strip s)" for s
    unfolding py_strip_def by (rule strip_by_map) (rule sp)
  have 3: "endswith_char 37 (map ?f s) = endswith_char 37 s" for s
    by (cases s rule: rev_cases) (auto simp: endswith_char_def)
  have 4: "rstrip_char 37 (map ?f s) = map ?f (rstrip_char 37 s)" for s
    unfolding rstrip_char_def by (rule rstrip_by_map) simp
  have 5: "map ?f (map ?f s) = map ?f s" for s by simp
  show ?thesis
    by (simp only: normalized_def replace_char_def Let_def 1 2 3 4 5 if_distrib [of "map ?f"])
qed

lemma normalized_clean:
  "160 \<notin> set (normalized v) \<and>
   (normalized v \<noteq> [] \<longrightarrow> \<not> py_isspace (hd (normalized v)) \<and> \<not> py_isspace (last (normalized v)))"
proof -
  let ?f = "\<lambda>c::nat. if c = 44 then 46 else c"
  have sp: "py_isspace (?f c) = py_isspace c" for c by (simp add: py_isspace_def)
  have st: "160 \<notin> set (py_strip s)" if "160 \<notin> set s" for s
  proof -
    obtain a b where "s = a @ py_strip s @ b"
      using strip_by_decomp [of s py_isspace] unfolding py_strip_def by blast
    then have "set (py_strip s) \<subseteq> set s" by (metis Un_iff set_append subsetI)
    with that show ?thesis by auto
  qed
  have rs: "160 \<notin> set (rstrip_char 37 s)" if "160 \<notin> set s" for s
  proof -
    obtain b where "s = rstrip_char 37 s @ b"
      using rstrip_by_decomp [of s "\<lambda>d. d = 37"] unfolding rstrip_char_def by blast
    then have "set (rstrip_char 37 s) \<subseteq> set s" by (metis Un_iff set_append subsetI)
    with that show ?thesis by auto
  qed
  have en: "s \<noteq> [] \<longrightarrow> \<not> py_isspace (hd s) \<and> \<not> py_isspace (last s)"
    if "s = py_strip u" for s u
    using that strip_by_ends [of py_isspace u] by (simp add: py_strip_def)
  have mp: "160 \<notin> set (map ?f s) \<and>
      (map ?f s \<noteq> [] \<longrightarrow> \<not> py_isspace (hd (map ?f s)) \<and> \<not> py_isspace (last (map ?f s)))"
    if "160 \<notin> set s" "s \<noteq> [] \<longrightarrow> \<not> py_isspace (hd s) \<and> \<not> py_isspace (last s)" for s
    using that by (auto simp: hd_map last_map sp)
  have r0: "160 \<notin> set (remove_char 160 v)" by (simp add: remove_char_def)
  let ?s1 = "py_strip (remove_char 160 v)"
  let ?s2 = "if endswith_char 37 ?s1 then py_strip (rstrip_char 37 ?s1) else ?s1"
  have a: "160 \<notin> set ?s1" by (rule st [OF r0])
  have b: "160 \<notin> set ?s2" using a st [OF rs [OF a]] by simp
  have c: "?s2 \<noteq> [] \<longrightarrow> \<not> py_isspace (hd ?s2) \<and> \<not> py_isspace (last ?s2)"
    using en [OF refl, of "remove_char 160 v"] en [OF refl, of "rstrip_char 37 ?s1"]
    by (simp split: if_splits)
  have "normalized v = map ?f ?s2" by (simp add: normalized_def Let_def replace_char_def)
  then show ?thesis using mp [OF b c] by simp
qed

section \<open>The characters of an accepted literal\<close>

lemma split_sign_chars:
  "split_sign s = (neg, t) \<Longrightarrow> set s \<subseteq> set t \<union> {43, 45} \<and> (t \<noteq> [] \<longrightarrow> s \<noteq> [])"
  by (auto simp: split_sign_def split: list.splits if_splits)

lemma digits_float_char: "list_all is_digit ds \<Longrightarrow> \<forall>c\<in>set ds. float_char c"
  by (auto simp: list_all_iff float_char_def)

lemma parse_exponent_chars: "parse_exponent s = Some e \<Longrightarrow> \<forall>c\<in>set s. float_char c"
proof (cases s)
  case Nil
  then show ?thesis by simp
next
  case (Cons c t)
  assume a: "parse_exponent s = Some e"
  obtain neg ds where sp: "split_sign t = (neg, ds)" by (cases "split_sign t")
  from a Cons sp have c: "c = 101 \<or> c = 69" and d: "list_all is_digit ds"
    by (auto simp: parse_exponent_def split: if_splits)
  from split_sign_chars [OF sp] digits_float_char [OF d]
  have "\<forall>c\<in>set t. float_char c" by (auto simp: float_char_def)
  with c Cons show ?thesis by (auto simp: float_char_def)
qed

lemma takeWhile_digit_chars: "\<forall>c\<in>set (takeWhile is_digit s). float_char c"
  by (auto dest: set_takeWhileD simp: float_char_def)

lemma parse_decimal_chars:
  assumes "parse_decimal s = Some x"
  shows "s \<noteq> [] \<and> (\<forall>c\<in>set s. float_char c)"
proof -
  have s: "s = takeWhile is_digit s @ dropWhile is_digit s" by simp
  show ?thesis
  proof (cases "dropWhile is_digit s")
    case Nil
    from assms have "takeWhile is_digit s \<noteq> []"
      unfolding parse_decimal_def Let_def Nil by (auto split: if_splits)
    then have "s \<noteq> []" by auto
    moreover have "s = takeWhile is_digit s" using s unfolding Nil by simp
    ultimately show ?thesis using takeWhile_digit_chars [of s] by metis
  next
    case (Cons c t)
    have t: "t = takeWhile is_digit t @ dropWhile is_digit t" by simp
    have ne: "s \<noteq> []" using Cons by auto
    show ?thesis
    proof (cases "c = 46")
      case True
      from assms obtain e where "parse_exponent (dropWhile is_digit t) = Some e"
        unfolding parse_decimal_def Let_def Cons using True
        by (auto split: if_splits option.splits)
      then have "\<forall>c\<in>set (dropWhile is_digit t). float_char c"
        by (rule parse_exponent_chars)
      then have "\<forall>c\<in>set t. float_char c"
        using takeWhile_digit_chars [of t] t by (metis Un_iff set_append)
      then have "\<forall>c\<in>set (dropWhile is_digit s). float_char c"
        unfolding Cons using True by (simp add: float_char_def)
      then have "\<forall>c\<in>set s. float_char c"
        using takeWhile_digit_chars [of s] s by (metis Un_iff set_append)
      with ne show ?thesis by simp
    next
      case False
      from assms obtain e where "parse_exponent (c # t) = Some e"
        unfolding parse_decimal_def Let_def Cons using False
        by (auto split: if_splits option.splits)
      then have "\<forall>c\<in>set (dropWhile is_digit s). float_char c"
        unfolding Cons by (rule parse_exponent_chars)
      then have "\<forall>c\<in>set s. float_char c"
        using takeWhile_digit_chars [of s] s by (metis Un_iff set_append)
      with ne show ?thesis by simp
    qed
  qed
qed

lemma lower_literal_chars:
  "map to_lower t = l \<Longrightarrow> \<forall>c\<in>set l. 97 \<le> c \<and> c \<le> 122 \<Longrightarrow> \<forall>c\<in>set t. float_char c"
  by (induction t arbitrary: l) (auto simp: to_lower_def float_char_def split: if_splits)

lemma parse_float_body_chars:
  assumes "parse_float_body s = Some x"
  shows "s \<noteq> [] \<and> (\<forall>c\<in>set s. float_char c)"
proof -
  obtain neg t where st: "split_sign s = (neg, t)" by (cases "split_sign s")
  have "t \<noteq> [] \<and> (\<forall>c\<in>set t. float_char c)"
  proof -
    consider "map to_lower t = asc ''inf''" | "map to_lower t = asc ''infinity''"
      | "map to_lower t = asc ''nan''" | y where "parse_decimal t = Some y"
      using assms st by (auto simp: parse_float_body_def Let_def split: if_splits option.splits)
    then show ?thesis
    proof cases
      case 1
      then show ?thesis using lower_literal_chars [of t "asc ''inf''"] by (auto simp: asc_def)
    next
      case 2
      then show ?thesis using lower_literal_chars [of t "asc ''infinity''"] by (auto simp: asc_def)
    next
      case 3
      then show ?thesis using lower_literal_chars [of t "asc ''nan''"] by (auto simp: asc_def)
    next
      case 4
      then show ?thesis by (rule parse_decimal_chars)
    qed
  qed
  with split_sign_chars [OF st] show ?thesis by (auto simp: float_char_def)
qed

lemma strip_underscores_chars:
  "strip_underscores prev s = Some t \<Longrightarrow> set s \<subseteq> set t \<union> {95}"
  by (induction prev s arbitrary: t rule: strip_underscores.induct)
     (auto split: if_splits)

lemma py_float_core:
  assumes "py_float s = Some x"
  shows "strip_by float_isspace s \<noteq> [] \<and>
         (\<forall>c\<in>set (strip_by float_isspace s). float_char c \<or> c = 95)"
proof -
  from assms obtain t where t: "strip_underscores 0 (strip_by float_isspace s) = Some t"
    and b: "parse_float_body t = Some x"
    by (auto simp: py_float_def split: option.splits)
  from parse_float_body_chars [OF b] have ne: "t \<noteq> []" and ch: "\<forall>c\<in>set t. float_char c"
    by auto
  have "strip_by float_isspace s \<noteq> []" using t ne by auto
  moreover have "\<forall>c\<in>set (strip_by float_isspace s). float_char c \<or> c = 95"
    using strip_underscores_chars [OF t] ch by auto
  ultimately show ?thesis by simp
qed


lemma float_isspace_py: "float_isspace c \<Longrightarrow> py_isspace c"
  by (auto simp: float_isspace_def py_isspace_def)

lemma normalized_percent:
  assumes "py_float (replace_char 44 46 n) = Some x"
  shows "py_float (normalized (n @ [37])) = Some x"
proof -
  let ?f = "\<lambda>c::nat. if c = 44 then 46 else c"
  let ?m = "strip_by float_isspace n"
  have fs: "float_isspace (?f c) = float_isspace c" for c
    by (simp add: float_isspace_def py_isspace_def)
  have sm: "strip_by float_isspace (map ?f n) = map ?f ?m"
    by (rule strip_by_map) (rule fs)
  from py_float_core [OF assms [unfolded replace_char_def]]
  have ne: "?m \<noteq> []" and ch: "\<forall>c\<in>set ?m. float_char (?f c) \<or> ?f c = 95"
    unfolding sm by auto
  have good: "\<not> py_isspace c \<and> c \<noteq> 37 \<and> c \<noteq> 160" if "c \<in> set ?m" for c
    using ch that by (auto simp: float_char_def is_digit_def py_isspace_def split: if_splits)
  obtain a b where n: "n = a @ ?m @ b"
    and a: "\<forall>c\<in>set a. float_isspace c" and b: "\<forall>c\<in>set b. float_isspace c"
    using strip_by_decomp [of n float_isspace] by blast
  let ?a = "remove_char 160 a" and ?b = "remove_char 160 b"
  have pa: "\<forall>c\<in>set ?a. py_isspace c" using a by (auto simp: remove_char_def float_isspace_py)
  have pb: "\<forall>c\<in>set ?b. py_isspace c" using b by (auto simp: remove_char_def float_isspace_py)
  have rm_m: "remove_char 160 ?m = ?m"
    unfolding remove_char_def using good by (simp add: filter_id_conv)
  have hdm: "\<not> py_isspace (hd ?m)" using ne good by simp
  have lastm: "\<not> py_isspace (last ?m)" using ne good by simp
  have rm: "remove_char 160 (n @ [37]) = ?a @ (?m @ ?b @ [37]) @ []"
    using arg_cong [OF n, of "\<lambda>s. remove_char 160 (s @ [37])"] rm_m
    by (simp add: remove_char_def)
  have "py_strip (remove_char 160 (n @ [37])) = strip_by py_isspace (?m @ ?b @ [37])"
    unfolding py_strip_def rm by (rule strip_by_pad) (use pa in auto)
  also have "\<dots> = ?m @ ?b @ [37]"
    by (rule strip_by_id) (use ne hdm in \<open>auto simp: py_isspace_def\<close>)
  finally have s1: "py_strip (remove_char 160 (n @ [37])) = (?m @ ?b) @ [37]" by simp
  have e: "endswith_char 37 ((?m @ ?b) @ [37])" by (simp add: endswith_char_def)
  have l37: "last (?m @ ?b) \<noteq> 37"
  proof (cases "?b = []")
    case True
    then show ?thesis using ne good by simp
  next
    case False
    then have "py_isspace (last ?b)" using pb by simp
    then show ?thesis using False by (auto simp: py_isspace_def)
  qed
  have "rstrip_char 37 ((?m @ ?b) @ [37]) = rstrip_by (\<lambda>d. d = 37) (?m @ ?b)"
    unfolding rstrip_char_def by (rule rstrip_by_snoc) simp
  also have "\<dots> = ?m @ ?b" by (rule rstrip_by_id) (use l37 in simp)
  finally have s2: "rstrip_char 37 ((?m @ ?b) @ [37]) = [] @ ?m @ ?b" by simp
  have "py_strip ([] @ ?m @ ?b) = strip_by py_isspace ?m"
    unfolding py_strip_def by (rule strip_by_pad) (use pb in auto)
  also have "\<dots> = ?m" by (rule strip_by_id) (use ne hdm lastm in auto)
  finally have s3: "py_strip ([] @ ?m @ ?b) = ?m" .
  have nm: "normalized (n @ [37]) = map ?f ?m"
    unfolding normalized_def Let_def s1 using e by (simp only: if_True s2 s3 replace_char_def)
  have "strip_by float_isspace (map ?f ?m) = map ?f (strip_by float_isspace ?m)"
    by (rule strip_by_map) (rule fs)
  then have "strip_by float_isspace (map ?f ?m) = strip_by float_isspace (map ?f n)"
    unfolding sm by (simp only: strip_by_idem)
  then have "py_float (map ?f ?m) = py_float (map ?f n)"
    by (simp only: py_float_def)
  with assms show ?thesis unfolding nm replace_char_def by simp
qed

lemma normalized_numeric:
  assumes "py_float (replace_char 44 46 n) = Some x"
  shows "py_float (normalized n) = Some x"
proof -
  let ?f = "\<lambda>c::nat. if c = 44 then 46 else c"
  let ?m = "strip_by float_isspace n"
  have fs: "float_isspace (?f c) = float_isspace c" for c
    by (simp add: float_isspace_def py_isspace_def)
  have sm: "strip_by float_isspace (map ?f n) = map ?f ?m"
    by (rule strip_by_map) (rule fs)
  from py_float_core [OF assms [unfolded replace_char_def]]
  have ne: "?m \<noteq> []" and ch: "\<forall>c\<in>set ?m. float_char (?f c) \<or> ?f c = 95"
    unfolding sm by auto
  have good: "\<not> py_isspace c \<and> c \<noteq> 37 \<and> c \<noteq> 160" if "c \<in> set ?m" for c
    using ch that by (auto simp: float_char_def is_digit_def py_isspace_def split: if_splits)
  obtain a b where n: "n = a @ ?m @ b"
    and a: "\<forall>c\<in>set a. float_isspace c" and b: "\<forall>c\<in>set b. float_isspace c"
    using strip_by_decomp [of n float_isspace] by blast
  let ?a = "remove_char 160 a" and ?b = "remove_char 160 b"
  have pa: "\<forall>c\<in>set ?a. py_isspace c" using a by (auto simp: remove_char_def float_isspace_py)
  have pb: "\<forall>c\<in>set ?b. py_isspace c" using b by (auto simp: remove_char_def float_isspace_py)
  have rm_m: "remove_char 160 ?m = ?m"
    unfolding remove_char_def using good by (simp add: filter_id_conv)
  have hdm: "\<not> py_isspace (hd ?m)" using ne good by simp
  have lastm: "\<not> py_isspace (last ?m)" using ne good by simp
  have rm: "remove_char 160 n = ?a @ ?m @ ?b"
    using arg_cong [OF n, of "remove_char 160"] rm_m by (simp add: remove_char_def)
  have "py_strip (remove_char 160 n) = strip_by py_isspace ?m"
    unfolding py_strip_def rm by (rule strip_by_pad) (use pa pb in auto)
  also have "\<dots> = ?m" by (rule strip_by_id) (use ne hdm lastm in auto)
  finally have s1: "py_strip (remove_char 160 n) = ?m" .
  have e: "\<not> endswith_char 37 ?m" using ne good by (simp add: endswith_char_def)
  have nm: "normalized n = map ?f ?m"
    unfolding normalized_def Let_def s1 using e by (simp only: if_False replace_char_def)
  have "strip_by float_isspace (map ?f ?m) = map ?f (strip_by float_isspace ?m)"
    by (rule strip_by_map) (rule fs)
  then have "strip_by float_isspace (map ?f ?m) = strip_by float_isspace (map ?f n)"
    unfolding sm by (simp only: strip_by_idem)
  then have "py_float (map ?f ?m) = py_float (map ?f n)"
    by (simp only: py_float_def)
  with assms show ?thesis unfolding nm replace_char_def by simp
qed

lemma normalized_remove_nbsp: "normalized (remove_char 160 v) = normalized v"
  by (simp add: normalized_def remove_char_def)

lemma parse_number_numeric:
  assumes "py_float (replace_char 44 46 (remove_char 160 v)) = Some x"
  shows "parse_number (PStr v) = Inr x"
  using normalized_numeric [OF assms] by (simp add: parse_number_str normalized_remove_nbsp)

section \<open>Claims about parse_number\<close>

text \<open>
  C9. \<open>parse_number\<close> parses the text \<open>normalized v\<close>, in which every comma of the string is
  replaced by a dot: that text has no comma, and as many dots as the input had commas
  and dots together. So whenever \<open>float\<close> accepts the string with dots for commas as \<open>x\<close>,
  \<open>parse_number\<close> returns \<open>x\<close>: a comma written as a thousands separator is read as a
  decimal point (\<open>"1,000"\<close> gives 1.0). Any string with two or more commas fails the
  numeric parse and gives 0.0, as \<open>"1,234,5"\<close> does.
\<close>

theorem parse_number_every_comma:
  "parse_number (PStr v) = Inr (case py_float (normalized v) of None \<Rightarrow> Finite 0 | Some x \<Rightarrow> x)
   \<and> count_list (normalized v) 44 = 0
   \<and> count_list (normalized v) 46 = count_list v 44 + count_list v 46
   \<and> (py_float (replace_char 44 46 v) = Some x \<longrightarrow> parse_number (PStr v) = Inr x)
   \<and> (2 \<le> count_list v 44 \<longrightarrow>
        py_float (normalized v) = None \<and> parse_number (PStr v) = Inr (Finite 0))
   \<and> parse_number (PStr (asc ''1,000'')) = Inr (Finite 1)
   \<and> parse_number (PStr (asc ''1,234,5'')) = Inr (Finite 0)"
proof -
  have two: "py_float (normalized v) = None" if "2 \<le> count_list v 44"
  proof (cases "py_float (normalized v)")
    case None
    then show ?thesis .
  next
    case (Some x)
    from py_float_dots [OF Some] that show ?thesis
      by (simp add: count_normalized_dot)
  qed
  have e1: "parse_number (PStr (asc ''1,000'')) = Inr (Finite 1)"
    by (simp add: str_defs)
  have e2: "parse_number (PStr (asc ''1,234,5'')) = Inr (Finite 0)"
    by (simp add: str_defs)
  have n: "parse_number (PStr v) = Inr x" if "py_float (replace_char 44 46 v) = Some x"
    using normalized_numeric [OF that] by (simp add: parse_number_str)
  from two have t: "2 \<le> count_list v 44 \<longrightarrow>
      py_float (normalized v) = None \<and> parse_number (PStr v) = Inr (Finite 0)"
    by (simp add: parse_number_str)
  from n have n': "py_float (replace_char 44 46 v) = Some x \<longrightarrow> parse_number (PStr v) = Inr x"
    by blast
  show ?thesis
    by (rule conjI [OF parse_number_str conjI [OF count_normalized_comma
          conjI [OF count_normalized_dot conjI [OF n' conjI [OF t conjI [OF e1 e2]]]]]])
qed

theorem parse_number_every_comma_witness:
  "2 \<le> count_list (asc ''1,2,3'') 44 \<and> parse_number (PStr (asc ''1,2,3'')) = Inr (Finite 0)
   \<and> py_float (replace_char 44 46 (asc ''12,5'')) = Some (Finite 12.5)
   \<and> parse_number (PStr (asc ''12,5'')) = Inr (Finite 12.5)"
proof -
  have a: "2 \<le> count_list (asc ''1,2,3'') 44" by (simp add: asc_def)
  have b: "py_float (replace_char 44 46 (asc ''12,5'')) = Some (Finite 12.5)"
    by (simp add: str_defs)
  from parse_number_every_comma [of "asc ''1,2,3''"] a
  have c: "parse_number (PStr (asc ''1,2,3'')) = Inr (Finite 0)" by blast
  from parse_number_every_comma [of "asc ''12,5''" "Finite 12.5"] b
  have d: "parse_number (PStr (asc ''12,5'')) = Inr (Finite 12.5)" by blast
  show ?thesis by (rule conjI [OF a conjI [OF c conjI [OF b d]]])
qed

text \<open>
  C6. \<open>parse_number\<close> parses the text \<open>normalized v\<close>, from which every non-breaking space
  is removed and whitespace at both ends is stripped: it has no non-breaking space and
  neither starts nor ends with whitespace. Padding a string with non-breaking spaces or
  other whitespace changes nothing, and a comma is read as a dot: the padded string with
  commas gives the same float as the string with dots, namely the value \<open>float\<close> gives the
  string once non-breaking spaces are deleted and commas are dots.
\<close>

theorem parse_number_whitespace_comma:
  "parse_number (PStr v) = Inr (case py_float (normalized v) of None \<Rightarrow> Finite 0 | Some x \<Rightarrow> x)
   \<and> 160 \<notin> set (normalized v)
   \<and> (normalized v \<noteq> [] \<longrightarrow>
        \<not> py_isspace (hd (normalized v)) \<and> \<not> py_isspace (last (normalized v)))
   \<and> ((\<forall>c\<in>set w1. py_isspace c) \<and> (\<forall>c\<in>set w2. py_isspace c) \<longrightarrow>
        parse_number (PStr (w1 @ v @ w2)) = parse_number (PStr (replace_char 44 46 v)))
   \<and> ((\<forall>c\<in>set w1. py_isspace c) \<and> (\<forall>c\<in>set w2. py_isspace c)
        \<and> py_float (replace_char 44 46 (remove_char 160 v)) = Some x \<longrightarrow>
        parse_number (PStr (w1 @ v @ w2)) = Inr x)"
proof -
  have p: "parse_number (PStr (w1 @ v @ w2)) = parse_number (PStr (replace_char 44 46 v))"
    if "\<forall>c\<in>set w1. py_isspace c" "\<forall>c\<in>set w2. py_isspace c"
    using normalized_pad [OF that, of v] by (simp add: parse_number_str normalized_comma)
  have q: "parse_number (PStr (w1 @ v @ w2)) = Inr x"
    if "\<forall>c\<in>set w1. py_isspace c" "\<forall>c\<in>set w2. py_isspace c"
      "py_float (replace_char 44 46 (remove_char 160 v)) = Some x"
    using normalized_pad [OF that(1,2), of v] parse_number_numeric [OF that(3)]
    by (simp add: parse_number_str)
  from p q show ?thesis using normalized_clean [of v] parse_number_str [of v] by blast
qed

theorem parse_number_whitespace_comma_witness:
  "py_isspace 160 \<and> py_isspace 32
   \<and> py_float (replace_char 44 46 (remove_char 160 (asc ''1'' @ [160] @ asc ''234,5'')))
       = Some (Finite 1234.5)
   \<and> parse_number (PStr ([160, 160] @ (asc ''1'' @ [160] @ asc ''234,5'') @ [160, 32]))
       = Inr (Finite 1234.5)
   \<and> parse_number (PStr (asc ''1234.5'')) = Inr (Finite 1234.5)"
proof -
  have s: "py_isspace 160 \<and> py_isspace 32" by (simp add: py_isspace_def)
  then have a: "(\<forall>c\<in>set [160, 160]. py_isspace c) \<and> (\<forall>c\<in>set [160, 32::nat]. py_isspace c)"
    by simp
  have b: "py_float (replace_char 44 46 (remove_char 160 (asc ''1'' @ [160] @ asc ''234,5'')))
       = Some (Finite 1234.5)"
    by (simp add: str_defs)
  have c: "parse_number (PStr (asc ''1234.5'')) = Inr (Finite 1234.5)"
    by (simp add: str_defs)
  from parse_number_whitespace_comma [of "asc ''1'' @ [160] @ asc ''234,5''" "[160, 160]"
      "[160, 32]" "Finite 1234.5"] a b
  have d: "parse_number (PStr ([160, 160] @ (asc ''1'' @ [160] @ asc ''234,5'') @ [160, 32]))
       = Inr (Finite 1234.5)"
    by blast
  from s have s1: "py_isspace 160" and s2: "py_isspace 32" by simp_all
  show ?thesis by (rule conjI [OF s1 conjI [OF s2 conjI [OF b conjI [OF d c]]]])
qed

text \<open>
  C3. A numeric string followed by a percent sign gives the value of the numeric part,
  unscaled: whenever \<open>float\<close> accepts the part before the sign (with dots for commas) as
  \<open>x\<close>, \<open>parse_number\<close> returns \<open>x\<close> for the percent-suffixed string. So \<open>"10%"\<close> gives
  10.0 and \<open>"12,5%"\<close> gives 12.5.
\<close>

theorem parse_number_percent:
  "(py_float (replace_char 44 46 n) = Some x \<longrightarrow> parse_number (PStr (n @ asc ''%'')) = Inr x)
   \<and> parse_number (PStr (asc ''10%'')) = Inr (Finite 10)
   \<and> parse_number (PStr (asc ''12,5%'')) = Inr (Finite 12.5)"
proof -
  have p: "asc ''%'' = [37]" by (simp add: asc_def)
  have "parse_number (PStr (n @ asc ''%'')) = Inr x" if "py_float (replace_char 44 46 n) = Some x"
    using normalized_percent [OF that] by (simp add: parse_number_str p)
  moreover have "parse_number (PStr (asc ''10%'')) = Inr (Finite 10)"
    by (simp add: str_defs)
  moreover have "parse_number (PStr (asc ''12,5%'')) = Inr (Finite 12.5)"
    by (simp add: str_defs)
  ultimately show ?thesis by blast
qed

theorem parse_number_percent_witness:
  "py_float (replace_char 44 46 (asc ''-3,25'')) = Some (Finite (- 3.25))
   \<and> parse_number (PStr (asc ''-3,25'' @ asc ''%'')) = Inr (Finite (- 3.25))"
proof -
  have a: "py_float (replace_char 44 46 (asc ''-3,25'')) = Some (Finite (- 3.25))"
    by (simp add: str_defs)
  with parse_number_percent [of "asc ''-3,25''" "Finite (- 3.25)"] show ?thesis by blast
qed

lemma parse_number_raises_iff:
  "(\<exists>e. parse_number v = Inl e) \<longleftrightarrow> (\<exists>n. v = PInt n \<and> 2 ^ 1024 - 2 ^ 970 \<le> \<bar>n\<bar>)"
  by (cases v) (auto simp: parse_number_def float_of_int_def Let_def split: option.splits)

text \<open>
  C4. \<open>parse_number\<close> does raise on one kind of input: an integer too large for a float
  makes \<open>float(v)\<close> raise \<open>OverflowError\<close>, which nothing catches, where the docstring
  promises 0.0 for a value that cannot be converted. Every other input returns a float
  (\<open>parse_number_raises_iff\<close>).
\<close>

theorem parse_number_big_int_raises:
  "parse_number (PInt (10 ^ 400)) = Inl OverflowError"
  by (simp add: parse_number_def float_of_int_def)

section \<open>Claims about fetch_data\<close>

lemmas date_defs = strptime_dmy_def parse_year_def make_date_def days_in_month_def is_leap_def
  is_digit_def digits_val_def asc_def

text \<open>
  C2. The loop body makes a record from a row exactly when the row has at least six cells
  and cell 0 is accepted by \<open>strptime\<close> under \<open>%d.%m.%Y\<close>; otherwise the row is skipped. The
  record holds that date, cell 3 as it is, and \<open>parse_number\<close> of cells 1, 2, 4 and 5, which
  is 0.0 where the numeric parse fails. In both cases no exception leaves the loop body.
\<close>

theorem parse_row_record:
  "(6 \<le> length row \<and> strptime_dmy (row ! 0) \<noteq> None \<longrightarrow>
      (\<exists>r. parse_row row = Inr (Some r)
         \<and> strptime_dmy (row ! 0) = Some (date r)
         \<and> parse_number (PStr (row ! 1)) = Inr (batons r)
         \<and> parse_number (PStr (row ! 2)) = Inr (sales r)
         \<and> type r = row ! 3
         \<and> parse_number (PStr (row ! 4)) = Inr (expense r)
         \<and> parse_number (PStr (row ! 5)) = Inr (margin r)
         \<and> (py_float (normalized (row ! 1)) = None \<longrightarrow> batons r = Finite 0)
         \<and> (py_float (normalized (row ! 2)) = None \<longrightarrow> sales r = Finite 0)
         \<and> (py_float (normalized (row ! 4)) = None \<longrightarrow> expense r = Finite 0)
         \<and> (py_float (normalized (row ! 5)) = None \<longrightarrow> margin r = Finite 0)))
   \<and> (\<not> (6 \<le> length row \<and> strptime_dmy (row ! 0) \<noteq> None) \<longrightarrow> parse_row row = Inr None)"
  by (auto simp: parse_row_def parse_number_str split: option.splits)

theorem parse_row_record_witness:
  "(let row = [asc ''05.03.2024'', asc ''ten'', asc ''500'', asc ''Online'', asc ''50'', asc ''12%'']
    in 6 \<le> length row \<and> strptime_dmy (row ! 0) \<noteq> None
       \<and> py_float (normalized (row ! 1)) = None
       \<and> (\<exists>r. parse_row row = Inr (Some r) \<and> batons r = Finite 0 \<and> type r = asc ''Online''
              \<and> margin r = Finite 12))
   \<and> parse_row [asc ''2024-03-05'', asc ''10'', asc ''500'', asc ''Online'', asc ''50'', asc ''12%'']
       = Inr None"
proof -
  define row where
    "row = [asc ''05.03.2024'', asc ''ten'', asc ''500'', asc ''Online'', asc ''50'', asc ''12%'']"
  define iso where
    "iso = [asc ''2024-03-05'', asc ''10'', asc ''500'', asc ''Online'', asc ''50'', asc ''12%'']"
  have d: "strptime_dmy (row ! 0) = Some \<lparr>year = 2024, month = 3, day = 5\<rparr>"
    by (simp add: row_def date_defs)
  have l: "6 \<le> length row" by (simp add: row_def)
  have n: "py_float (normalized (row ! 1)) = None"
    by (simp add: row_def normalized_def str_defs)
  have m: "parse_number (PStr (row ! 5)) = Inr (Finite 12)"
    by (simp add: row_def str_defs)
  have t: "row ! 3 = asc ''Online''" by (simp add: row_def)
  from parse_row_record [of row] l d
  obtain r where r: "parse_row row = Inr (Some r)" "type r = row ! 3"
      "parse_number (PStr (row ! 5)) = Inr (margin r)"
      "py_float (normalized (row ! 1)) = None \<longrightarrow> batons r = Finite 0"
    by auto
  from r n m t have "parse_row row = Inr (Some r) \<and> batons r = Finite 0
      \<and> type r = asc ''Online'' \<and> margin r = Finite 12"
    by simp
  then have ex: "\<exists>r. parse_row row = Inr (Some r) \<and> batons r = Finite 0
      \<and> type r = asc ''Online'' \<and> margin r = Finite 12" ..
  have d1: "strptime_dmy (iso ! 0) = None" by (simp add: iso_def date_defs)
  have i: "parse_row iso = Inr None" using parse_row_record [of iso] d1 by simp
  from l d n ex i show ?thesis unfolding Let_def row_def iso_def by simp
qed

lemma parse_row_example:
  "parse_row [asc ''05.03.2024'', asc ''10'', asc ''500'', asc ''Online'', asc ''50'', asc ''12%'']
     = Inr (Some \<lparr>date = \<lparr>year = 2024, month = 3, day = 5\<rparr>, batons = Finite 10,
                  sales = Finite 500, type = asc ''Online'', expense = Finite 50,
                  margin = Finite 12\<rparr>)"
proof -
  have d: "strptime_dmy (asc ''05.03.2024'') = Some \<lparr>year = 2024, month = 3, day = 5\<rparr>"
    by (simp add: date_defs)
  have n1: "parse_number (PStr (asc ''10'')) = Inr (Finite 10)" by (simp add: str_defs)
  have n2: "parse_number (PStr (asc ''500'')) = Inr (Finite 500)" by (simp add: str_defs)
  have n3: "parse_number (PStr (asc ''50'')) = Inr (Finite 50)" by (simp add: str_defs)
  have n4: "parse_number (PStr (asc ''12%'')) = Inr (Finite 12)" by (simp add: str_defs)
  show ?thesis unfolding parse_row_def by (simp add: d n1 n2 n3 n4)
qed

lemma parse_row_skips:
  "parse_row [asc ''31.02.2024'', asc ''10'', asc ''500'', asc ''Online'', asc ''50'', asc ''12%'']
     = Inr None"
  "parse_row [asc ''05.03.2024'', asc ''10'', asc ''500'', asc ''Online'', asc ''50''] = Inr None"
proof -
  have d: "strptime_dmy (asc ''31.02.2024'') = None" by (simp add: date_defs)
  show "parse_row [asc ''31.02.2024'', asc ''10'', asc ''500'', asc ''Online'', asc ''50'', asc ''12%'']
     = Inr None"
    unfolding parse_row_def by (simp add: d)
  show "parse_row [asc ''05.03.2024'', asc ''10'', asc ''500'', asc ''Online'', asc ''50''] = Inr None"
    unfolding parse_row_def by simp
qed

lemma rows_loop_records:
  "rows_loop data rows =
     Inr (data @ concat (map (\<lambda>row. case parse_row row of Inr (Some r) \<Rightarrow> [r] | _ \<Rightarrow> []) rows))"
proof (induction rows arbitrary: data)
  case Nil
  then show ?case by simp
next
  case (Cons row rows)
  from parse_row_record [of row]
  consider "parse_row row = Inr None" | r where "parse_row row = Inr (Some r)" by blast
  then show ?case by cases (simp_all add: Cons)
qed

section \<open>Claims about filter_data\<close>

lemma date_le_linear:
  "date_le a a"
  "date_le a b \<Longrightarrow> date_le b c \<Longrightarrow> date_le a c"
  "date_le a b \<Longrightarrow> date_le b a \<Longrightarrow> year a = year b \<and> month a = month b \<and> day a = day b"
  "date_le a b \<or> date_le b a"
  by (auto simp: date_le_def)

lemma filter_data_eq:
  "filter_data data start_date end_date =
     filter (\<lambda>item. in_period start_date end_date (date item)) data"
proof -
  have "(case start_date of None \<Rightarrow> True | Some s \<Rightarrow> date_le s d) \<and>
        (case end_date of None \<Rightarrow> True | Some e \<Rightarrow> date_le d e) \<longleftrightarrow>
        in_period start_date end_date d" for d
    by (cases start_date; cases end_date) (simp_all add: in_period_def)
  then show ?thesis by (simp add: filter_data_def)
qed

text \<open>
  C5. \<open>filter_data\<close> keeps exactly the records whose date is in the period: the start is
  absent or the date is on or after it, and the end is absent or the date is on or before
  it. Both bounds are inclusive, an absent bound leaves that side open, and the records
  kept stand in the order of the input.
\<close>

theorem filter_data_window:
  "filter_data data start_date end_date =
     filter (\<lambda>item. in_period start_date end_date (date item)) data
   \<and> subseq (filter_data data start_date end_date) data
   \<and> (item \<in> set (filter_data data start_date end_date) \<longleftrightarrow>
        item \<in> set data \<and> in_period start_date end_date (date item))
   \<and> filter_data data None None = data
   \<and> in_period (Some d) (Some d) d
   \<and> in_period None (Some d) d \<and> in_period (Some d) None d"
  by (simp add: filter_data_eq in_period_def date_le_linear(1))

lemma filter_data_march:
  "filter_data
     [r\<lparr>date := \<lparr>year = 2024, month = 3, day = 5\<rparr>\<rparr>,
      r\<lparr>date := \<lparr>year = 2024, month = 4, day = 1\<rparr>\<rparr>,
      r\<lparr>date := \<lparr>year = 2024, month = 3, day = 1\<rparr>\<rparr>,
      r\<lparr>date := \<lparr>year = 2024, month = 3, day = 31\<rparr>\<rparr>]
     (Some \<lparr>year = 2024, month = 3, day = 1\<rparr>) (Some \<lparr>year = 2024, month = 3, day = 31\<rparr>)
   = [r\<lparr>date := \<lparr>year = 2024, month = 3, day = 5\<rparr>\<rparr>,
      r\<lparr>date := \<lparr>year = 2024, month = 3, day = 1\<rparr>\<rparr>,
      r\<lparr>date := \<lparr>year = 2024, month = 3, day = 31\<rparr>\<rparr>]"
  by (simp add: filter_data_def date_le_def)

section \<open>Claims about compute_report\<close>

lemma fadd_commute: "fadd a b = fadd b a"
  by (cases a; cases b) simp_all

lemma fadd_assoc: "fadd (fadd a b) c = fadd a (fadd b c)"
  by (cases a; cases b; cases c) simp_all

lemma fadd_zero [simp]: "fadd (Finite 0) a = a" "fadd a (Finite 0) = a"
  by (cases a; simp)+

lemma foldl_step_float:
  "foldl (\<lambda>acc x. NFloat (fadd (num_float acc) x)) (NFloat a) xs = NFloat (foldl fadd a xs)"
  by (induction xs arbitrary: a) simp_all

lemma py_sum_eq:
  "py_sum xs = (if xs = [] then NInt 0 else NFloat (foldl fadd (Finite 0) xs))"
  by (cases xs) (simp_all add: py_sum_def foldl_step_float)

lemma num_float_py_sum: "num_float (py_sum xs) = foldl fadd (Finite 0) xs"
  by (simp add: py_sum_eq)

lemma foldl_fadd_start: "foldl fadd a xs = fadd a (foldl fadd (Finite 0) xs)"
proof (induction xs rule: rev_induct)
  case Nil
  then show ?case by simp
next
  case (snoc x xs)
  then show ?case by (simp add: fadd_assoc)
qed

lemma foldl_fadd_mset:
  assumes "mset xs = mset ys"
  shows "foldl fadd a xs = foldl fadd a ys"
proof -
  have "fold (\<lambda>x acc. fadd acc x) xs = fold (\<lambda>x acc. fadd acc x) ys"
  proof (rule fold_multiset_equiv [OF _ assms])
    fix x y
    show "(\<lambda>acc. fadd acc x) \<circ> (\<lambda>acc. fadd acc y) = (\<lambda>acc. fadd acc y) \<circ> (\<lambda>acc. fadd acc x)"
      by (rule ext) (simp add: fadd_assoc fadd_commute [of x y])
  qed
  then show ?thesis by (simp add: foldl_conv_fold)
qed

lemma py_sum_mset: "mset xs = mset ys \<Longrightarrow> py_sum xs = py_sum ys"
  using foldl_fadd_mset [of xs ys "Finite 0"] mset_eq_length [of xs ys]
  by (auto simp: py_sum_eq)


lemma average_eq:
  "average ms = Inr (if ms = [] then Finite 0
                     else fdiv_count (foldl fadd (Finite 0) ms) (length ms))"
  by (simp add: average_def py_truediv_def num_float_py_sum)


lemma average_mset: "mset xs = mset ys \<Longrightarrow> average xs = average ys"
  using foldl_fadd_mset [of xs ys "Finite 0"] mset_eq_length [of xs ys]
  by (auto simp: average_eq)

lemma comprehension_filter:
  "[f item. item \<leftarrow> rows, P item] = map f (filter P rows)"
  by (induction rows) simp_all

lemma compute_report_eq:
  "compute_report rows =
     Inr \<lparr>total_batons = py_sum (map batons rows),
          total_sales = py_sum (map sales rows),
          total_online = py_sum (map sales (filter (\<lambda>r. type r = online_label) rows)),
          total_fop = py_sum (map sales (filter (\<lambda>r. type r = fop_label) rows)),
          total_expense = py_sum (map expense rows),
          avg_margin = projr (average (map margin rows)),
          avg_online = projr (average (map margin (filter (\<lambda>r. type r = online_label) rows))),
          avg_fop = projr (average (map margin (filter (\<lambda>r. type r = fop_label) rows)))\<rparr>"
  by (simp add: compute_report_def comprehension_filter average_eq Let_def)




lemma compute_report_example:
  "compute_report
     [\<lparr>date = d, batons = Finite 1, sales = Finite 100, type = online_label,
       expense = Finite 5, margin = Finite 10\<rparr>,
      \<lparr>date = d, batons = Finite 2, sales = Finite 50, type = fop_label,
       expense = Finite 7, margin = Finite 20\<rparr>]
   = Inr \<lparr>total_batons = NFloat (Finite 3), total_sales = NFloat (Finite 150),
          total_online = NFloat (Finite 100), total_fop = NFloat (Finite 50),
          total_expense = NFloat (Finite 12), avg_margin = Finite 15,
          avg_online = Finite 10, avg_fop = Finite 20\<rparr>"
  by (simp add: compute_report_eq py_sum_eq average_eq online_label_def fop_label_def)

text \<open>
  C7. \<open>compute_report\<close> gives the same summary for every permutation of the records;
  addition is exact here, so the equality is exact.
\<close>

theorem compute_report_permutation:
  "mset rows = mset rows' \<Longrightarrow> compute_report rows = compute_report rows'"
proof -
  assume a: "mset rows = mset rows'"
  have m: "mset (map f rows) = mset (map f rows')" for f :: "sales_row \<Rightarrow> pyfloat"
    using a by (metis mset_map)
  have mf: "mset (map f (filter P rows)) = mset (map f (filter P rows'))"
    for f :: "sales_row \<Rightarrow> pyfloat" and P
    using a by (metis mset_map mset_filter)
  show ?thesis
    unfolding compute_report_eq
    by (simp only: py_sum_mset [OF m] py_sum_mset [OF mf] average_mset [OF m] average_mset [OF mf])
qed

theorem compute_report_permutation_witness:
  "(let a = \<lparr>date = \<lparr>year = 2024, month = 3, day = 5\<rparr>, batons = Finite 1, sales = Finite 100,
              type = online_label, expense = Finite 5, margin = Finite 10\<rparr>;
        b = \<lparr>date = \<lparr>year = 2024, month = 3, day = 6\<rparr>, batons = Finite 2, sales = Finite 50,
              type = fop_label, expense = Finite 7, margin = NaN\<rparr>
    in mset [a, b, a] = mset [b, a, a] \<and> compute_report [a, b, a] = compute_report [b, a, a])"
proof -
  have "mset [a, b, a] = mset [b, a, a]" for a b :: sales_row by simp
  then show ?thesis unfolding Let_def using compute_report_permutation by blast
qed


lemma labels_distinct: "online_label \<noteq> fop_label"
  by (simp add: online_label_def fop_label_def)

lemma fsum_split:
  assumes "\<forall>r\<in>set rows. P r \<noteq> Q r"
  shows "fadd (foldl fadd (Finite 0) (map f (filter P rows)))
              (foldl fadd (Finite 0) (map f (filter Q rows)))
         = foldl fadd (Finite 0) (map f rows)"
  using assms
proof (induction rows rule: rev_induct)
  case Nil
  then show ?case by simp
next
  case (snoc r rows)
  let ?A = "foldl fadd (Finite 0) (map f (filter P rows))"
  let ?B = "foldl fadd (Finite 0) (map f (filter Q rows))"
  from snoc have ih: "fadd ?A ?B = foldl fadd (Finite 0) (map f rows)" by simp
  from snoc.prems have "P r \<noteq> Q r" by simp
  then consider "P r" "\<not> Q r" | "\<not> P r" "Q r" by blast
  then show ?case
  proof cases
    case 1
    have "fadd (fadd ?A (f r)) ?B = fadd (fadd ?A ?B) (f r)"
      by (simp add: fadd_assoc fadd_commute [of "f r"])
    with 1 ih show ?thesis by simp
  next
    case 2
    have "fadd ?A (fadd ?B (f r)) = fadd (fadd ?A ?B) (f r)"
      by (simp add: fadd_assoc)
    with 2 ih show ?thesis by simp
  qed
qed

lemma compute_report64_eq:
  "compute_report64 rows =
     Inr \<lparr>total_batons = py_sum64 (map batons rows),
          total_sales = py_sum64 (map sales rows),
          total_online = py_sum64 (map sales (filter (\<lambda>r. type r = online_label) rows)),
          total_fop = py_sum64 (map sales (filter (\<lambda>r. type r = fop_label) rows)),
          total_expense = py_sum64 (map expense rows),
          avg_margin = projr (average64 (map margin rows)),
          avg_online = projr (average64 (map margin (filter (\<lambda>r. type r = online_label) rows))),
          avg_fop = projr (average64 (map margin (filter (\<lambda>r. type r = fop_label) rows)))\<rparr>"
  by (simp add: compute_report64_def comprehension_filter average64_def py_truediv64_def Let_def)

lemma round64_small:
  "round64 100 = Finite 100" "round64 50 = Finite 50" "round64 150 = Finite 150"
  "round64 107 = Finite 107" "round64 157 = Finite 157" "round64 10 = Finite 10"
  "round64 20 = Finite 20" "round64 30 = Finite 30"
  by (simp_all add: round64_eval)

text \<open>
  C10. In exact arithmetic: when every record carries the online label or the partner
  label, the online total plus the partner total is the total of sales. A record with any
  other label, wherever it stands, adds its sales to the total of sales and leaves both
  channel totals unchanged. On binary64 as well, such a record leaves both channel totals
  unchanged.
\<close>

theorem compute_report_channel_totals:
  "(compute_report rows = Inr s \<and> (\<forall>r\<in>set rows. type r = online_label \<or> type r = fop_label)
      \<longrightarrow> fadd (num_float (total_online s)) (num_float (total_fop s)) = num_float (total_sales s))
   \<and> (compute_report (rows1 @ rows2) = Inr s1 \<and> compute_report (rows1 @ r # rows2) = Inr s2
        \<and> type r \<noteq> online_label \<and> type r \<noteq> fop_label
      \<longrightarrow> total_online s2 = total_online s1 \<and> total_fop s2 = total_fop s1
          \<and> num_float (total_sales s2) = fadd (num_float (total_sales s1)) (sales r))
   \<and> (compute_report64 (rows1 @ rows2) = Inr t1 \<and> compute_report64 (rows1 @ r # rows2) = Inr t2
        \<and> type r \<noteq> online_label \<and> type r \<noteq> fop_label
      \<longrightarrow> total_online t2 = total_online t1 \<and> total_fop t2 = total_fop t1)"
proof -
  have 1: "fadd (num_float (total_online s)) (num_float (total_fop s)) = num_float (total_sales s)"
    if c: "compute_report rows = Inr s"
      and l: "\<forall>r\<in>set rows. type r = online_label \<or> type r = fop_label"
  proof -
    have "\<forall>r\<in>set rows. (type r = online_label) \<noteq> (type r = fop_label)"
      using l labels_distinct by auto
    from fsum_split [OF this, of sales] c show ?thesis
      by (auto simp: compute_report_eq num_float_py_sum)
  qed
  have 2: "total_online s2 = total_online s1 \<and> total_fop s2 = total_fop s1
          \<and> num_float (total_sales s2) = fadd (num_float (total_sales s1)) (sales r)"
    if c1: "compute_report (rows1 @ rows2) = Inr s1"
      and c2: "compute_report (rows1 @ r # rows2) = Inr s2"
      and t: "type r \<noteq> online_label" "type r \<noteq> fop_label"
  proof -
    have "mset (map sales (rows1 @ r # rows2)) = mset (map sales ((rows1 @ rows2) @ [r]))"
      by simp
    from foldl_fadd_mset [OF this, of "Finite 0"]
    have "foldl fadd (Finite 0) (map sales (rows1 @ r # rows2))
        = fadd (foldl fadd (Finite 0) (map sales (rows1 @ rows2))) (sales r)"
      by simp
    with c1 c2 t show ?thesis
      by (auto simp: compute_report_eq num_float_py_sum)
  qed
  have 3: "total_online t2 = total_online t1 \<and> total_fop t2 = total_fop t1"
    if "compute_report64 (rows1 @ rows2) = Inr t1"
      and "compute_report64 (rows1 @ r # rows2) = Inr t2"
      and "type r \<noteq> online_label" "type r \<noteq> fop_label"
    using that by (auto simp: compute_report64_eq)
  from 1 2 3 show ?thesis by blast
qed

theorem compute_report_channel_totals_witness:
  "(let a = \<lparr>date = \<lparr>year = 2024, month = 3, day = 5\<rparr>, batons = Finite 1, sales = Finite 100,
              type = online_label, expense = Finite 5, margin = Finite 10\<rparr>;
        b = a\<lparr>type := fop_label, sales := Finite 50\<rparr>;
        c = a\<lparr>type := asc ''Online'', sales := Finite 7\<rparr>
    in type a = online_label \<and> type b = fop_label
       \<and> type c \<noteq> online_label \<and> type c \<noteq> fop_label
       \<and> (\<exists>s s2. compute_report [a, b] = Inr s \<and> compute_report [a, c, b] = Inr s2
             \<and> total_online s = NFloat (Finite 100) \<and> total_fop s = NFloat (Finite 50)
             \<and> total_sales s = NFloat (Finite 150)
             \<and> fadd (num_float (total_online s)) (num_float (total_fop s)) = num_float (total_sales s)
             \<and> total_online s2 = total_online s \<and> total_fop s2 = total_fop s
             \<and> num_float (total_sales s2) = Finite 157)
       \<and> (\<exists>t t2. compute_report64 [a, b] = Inr t \<and> compute_report64 [a, c, b] = Inr t2
             \<and> total_online t = NFloat (Finite 100) \<and> total_fop t = NFloat (Finite 50)
             \<and> total_sales t2 = NFloat (Finite 157)
             \<and> total_online t2 = total_online t \<and> total_fop t2 = total_fop t))"
proof -
  define a where "a = \<lparr>date = \<lparr>year = 2024, month = 3, day = 5\<rparr>, batons = Finite 1,
    sales = Finite 100, type = online_label, expense = Finite 5, margin = Finite 10\<rparr>"
  define b where "b = a\<lparr>type := fop_label, sales := Finite 50\<rparr>"
  define c where "c = a\<lparr>type := asc ''Online'', sales := Finite 7\<rparr>"
  have l: "\<forall>r\<in>set [a, b]. type r = online_label \<or> type r = fop_label"
    by (simp add: a_def b_def)
  have t: "type c \<noteq> online_label" "type c \<noteq> fop_label"
    by (simp_all add: c_def asc_def online_label_def fop_label_def)
  obtain s where s: "compute_report [a, b] = Inr s" by (simp add: compute_report_eq)
  obtain s2 where s2: "compute_report [a, c, b] = Inr s2" by (simp add: compute_report_eq)
  obtain u where u: "compute_report64 [a, b] = Inr u" by (simp add: compute_report64_eq)
  obtain u2 where u2: "compute_report64 [a, c, b] = Inr u2" by (simp add: compute_report64_eq)
  have v: "total_online s = NFloat (Finite 100)" "total_fop s = NFloat (Finite 50)"
    "total_sales s = NFloat (Finite 150)"
    using s by (auto simp: compute_report_eq py_sum_eq a_def b_def labels_distinct
        labels_distinct [symmetric])
  have w: "total_online u = NFloat (Finite 100)" "total_fop u = NFloat (Finite 50)"
    using u by (auto simp: compute_report64_eq py_sum64_def round64_small a_def b_def
        labels_distinct labels_distinct [symmetric])
  have w2: "total_sales u2 = NFloat (Finite 157)"
    using u2 by (auto simp: compute_report64_eq py_sum64_def round64_small a_def b_def c_def)
  from compute_report_channel_totals [of "[a, b]" s "[a]" "[b]" s c s2 u u2] s s2 u u2 l t
  have r: "fadd (num_float (total_online s)) (num_float (total_fop s)) = num_float (total_sales s)"
    "total_online s2 = total_online s" "total_fop s2 = total_fop s"
    "num_float (total_sales s2) = fadd (num_float (total_sales s)) (sales c)"
    "total_online u2 = total_online u" "total_fop u2 = total_fop u"
    by simp_all
  have "num_float (total_sales s2) = Finite 157" using r(4) v by (simp add: c_def)
  moreover have "type a = online_label" "type b = fop_label" by (simp_all add: a_def b_def)
  ultimately show ?thesis using t s s2 u u2 v w w2 r
    unfolding Let_def a_def [symmetric] b_def [symmetric] c_def [symmetric] by blast
qed

text \<open>
  On binary64 the two sides can differ by a rounding. With sales of 1 from a partner and
  of 1 and \<open>2^53\<close> online, in that order, the total of sales is \<open>2^53 + 2\<close>, while the online
  total is \<open>2^53\<close> and adding the partner total 1 to it gives \<open>2^53\<close> again.
\<close>

theorem compute_report64_channel_counterexample:
  "compute_report64
     [\<lparr>date = \<lparr>year = 2024, month = 3, day = 5\<rparr>, batons = Finite 0, sales = Finite 1,
       type = fop_label, expense = Finite 0, margin = Finite 0\<rparr>,
      \<lparr>date = \<lparr>year = 2024, month = 3, day = 5\<rparr>, batons = Finite 0, sales = Finite 1,
       type = online_label, expense = Finite 0, margin = Finite 0\<rparr>,
      \<lparr>date = \<lparr>year = 2024, month = 3, day = 5\<rparr>, batons = Finite 0,
       sales = Finite 9007199254740992, type = online_label, expense = Finite 0,
       margin = Finite 0\<rparr>]
   = Inr \<lparr>total_batons = NFloat (Finite 0), total_sales = NFloat (Finite 9007199254740994),
          total_online = NFloat (Finite 9007199254740992), total_fop = NFloat (Finite 1),
          total_expense = NFloat (Finite 0), avg_margin = Finite 0, avg_online = Finite 0,
          avg_fop = Finite 0\<rparr>
   \<and> fadd64 (Finite 9007199254740992) (Finite 1) = Finite 9007199254740992
   \<and> fadd64 (Finite 9007199254740992) (Finite 1) \<noteq> Finite 9007199254740994"
proof -
  have l: "online_label \<noteq> fop_label" "fop_label \<noteq> online_label"
    by (simp_all add: online_label_def fop_label_def)
  show ?thesis
    by (simp add: compute_report64_def average64_def py_truediv64_def py_sum64_def
        round64_examples l)
qed

section \<open>Claims about format_report\<close>

lemma nat_digits_digits: "nat_digits n \<noteq> [] \<and> (\<forall>c\<in>set (nat_digits n). is_digit c)"
proof (induction n rule: nat_digits.induct)
  case (1 n)
  show ?case
  proof (cases "n < 10")
    case True
    then show ?thesis by (simp add: nat_digits.simps [of n] is_digit_def)
  next
    case False
    have "n mod 10 < 10" by simp
    then have "is_digit (48 + n mod 10)" unfolding is_digit_def by linarith
    with False 1 show ?thesis by (simp add: nat_digits.simps [of n])
  qed
qed

lemma nat_digits_small: "n < 10 \<Longrightarrow> nat_digits n = [48 + n]"
  by (simp add: nat_digits.simps [of n])

lemma nat_digits_step:
  "\<not> n < 10 \<Longrightarrow> nat_digits n = nat_digits (n div 10) @ [48 + n mod 10]"
  by (simp add: nat_digits.simps [of n])

lemma replicate_zeros:
  "replicate 3 (48::nat) = [48, 48, 48]" "replicate 2 (48::nat) = [48, 48]"
  by (simp_all add: numeral_3_eq_3 numeral_2_eq_2)

lemma fmt_2f_finite:
  assumes "to_float64 x = Finite q"
  shows "two_decimals (fmt_2f x)"
proof -
  define n where "n = round_half_even (\<bar>q\<bar> * 100)"
  define ds where "ds = nat_digits (n div 100)"
  have f: "fmt_2f x =
      (if q < 0 then [45] else []) @ ds @ [46, 48 + (n mod 100) div 10, 48 + n mod 10]"
    by (simp add: fmt_2f_def assms n_def ds_def Let_def)
  have "(n mod 100) div 10 < 10" by simp
  then have d1: "is_digit (48 + (n mod 100) div 10)" unfolding is_digit_def by linarith
  have "n mod 10 < 10" by simp
  then have d2: "is_digit (48 + n mod 10)" unfolding is_digit_def by linarith
  have dd: "ds \<noteq> []" "list_all is_digit ds"
    using nat_digits_digits [of "n div 100"] by (simp_all add: ds_def list_all_iff)
  then obtain c r where cr: "ds = c # r" by (cases ds) auto
  have c45: "c \<noteq> 45" using dd(2) cr by (auto simp: is_digit_def)
  show ?thesis
  proof (cases "q < 0")
    case True
    then show ?thesis unfolding f two_decimals_def using d1 d2 dd by simp
  next
    case False
    then show ?thesis unfolding f two_decimals_def cr using d1 d2 dd c45 by (simp add: cr)
  qed
qed

lemma fmt_2f_names:
  "fmt_2f PosInf = asc ''inf''" "fmt_2f NegInf = asc ''-inf''" "fmt_2f NaN = asc ''nan''"
  by (simp_all add: fmt_2f_def to_float64_def)

lemma names_not_two_decimals:
  "\<not> two_decimals (asc ''inf'')" "\<not> two_decimals (asc ''-inf'')" "\<not> two_decimals (asc ''nan'')"
  by (simp_all add: two_decimals_def asc_def)

lemma fmt_2f_two_decimals_iff:
  "two_decimals (fmt_2f x) \<longleftrightarrow> (\<exists>q. to_float64 x = Finite q)"
proof (cases "to_float64 x")
  case (Finite q)
  then show ?thesis using fmt_2f_finite [of x q] by simp
next
  case PosInf
  then show ?thesis by (simp add: fmt_2f_def names_not_two_decimals)
next
  case NegInf
  then show ?thesis by (simp add: fmt_2f_def names_not_two_decimals)
next
  case NaN
  then show ?thesis by (simp add: fmt_2f_def names_not_two_decimals)
qed

lemmas fmt_eval = fmt_2f_def to_float64_def Let_def asc_def nat_digits_small nat_digits_step
  round64_eval

lemma fmt_2f_twelve: "fmt_2f (Finite 12) = asc ''12.00''"
  by (simp add: fmt_eval)

lemma fmt_2f_examples:
  "fmt_2f (Finite (1/8)) = asc ''0.12''"
  "fmt_2f (Finite (2675/1000)) = asc ''2.67''"
  "fmt_2f (Finite (- 1/3)) = asc ''-0.33''"
  by (simp_all add: fmt_eval)

lemmas repr_eval = float_str_def to_float64_def repr_pos_def shortest_digits_def repr_try_def
  dec_exp_def scale10_def repr_layout_def zfill_def rstrip_char_def rstrip_by_def
  nat_digits_small nat_digits_step asc_def replicate_zeros round64_eval

lemma float_str_examples:
  "float_str (Finite 500) = asc ''500.0''"
  "float_str (Finite (25/2)) = asc ''12.5''"
  "float_str (Finite (1/4)) = asc ''0.25''"
  "float_str (Finite (1/10)) = asc ''0.1''"
  "float_str (Finite (10 ^ 16)) = asc ''1e+16''"
  "float_str (Finite (- 3/2)) = asc ''-1.5''"
  by (simp_all add: repr_eval)

lemma float_str_zero: "float_str (Finite 0) = asc ''0.0''"
  by (simp add: float_str_def to_float64_def)

lemma float_str_names:
  "float_str PosInf = asc ''inf''" "float_str NegInf = asc ''-inf''" "float_str NaN = asc ''nan''"
  by (simp_all add: float_str_def to_float64_def)

lemma py_str_zero: "py_str (NInt 0) = asc ''0''"
  by (simp add: py_str_def int_str_def asc_def nat_digits_small)

lemma strftime_examples:
  "strftime_dmy \<lparr>year = 2024, month = 3, day = 5\<rparr> = asc ''05.03.2024''"
  "strftime_dmy \<lparr>year = 999, month = 1, day = 1\<rparr> = asc ''01.01.999''"
  by (simp_all add: strftime_dmy_def zfill_def asc_def nat_digits_small nat_digits_step)

lemma zfill2_digits:
  "n < 100 \<Longrightarrow> zfill 2 (nat_digits n) = [48 + n div 10, 48 + n mod 10]"
  by (cases "n < 10") (simp_all add: zfill_def nat_digits_small nat_digits_step)

lemma nat_digits_four:
  assumes "1000 \<le> n" "n < 10000"
  shows "nat_digits n =
           [48 + n div 1000, 48 + n div 100 mod 10, 48 + n div 10 mod 10, 48 + n mod 10]"
proof -
  from assms have a: "\<not> n < 10" "\<not> n div 10 < 10" "\<not> n div 100 < 10" by simp_all
  have b: "n div 10 div 10 = n div 100" "n div 100 div 10 = n div 1000"
    by (simp_all add: div_mult2_eq [symmetric])
  have e: "n div 1000 < 10" using assms by simp
  show ?thesis
    by (simp add: nat_digits_step [OF a(1)] nat_digits_step [OF a(2)] b
        nat_digits_step [OF a(3)] nat_digits_small [OF e])
qed

lemma parse_day_zfill:
  assumes "1 \<le> d" "d \<le> 31"
  shows "parse_day [48 + d div 10, 48 + d mod 10] = Some d"
proof -
  have e: "d = 10 * (d div 10) + d mod 10" by simp
  have "d div 10 = 0 \<or> d div 10 = 1 \<or> d div 10 = 2 \<or> d div 10 = 3"
    using assms(2) by presburger
  then consider "d div 10 = 0" | "d div 10 = 1" | "d div 10 = 2" | "d div 10 = 3" by auto
  then show ?thesis
  proof cases
    case 1
    then have "d mod 10 = d" using e by simp
    with 1 assms show ?thesis by (simp add: is_digit_def)
  next
    case 2
    have "d mod 10 < 10" by simp
    then have "is_digit (48 + d mod 10)" unfolding is_digit_def by linarith
    moreover have "10 + d mod 10 = d" using e 2 by simp
    ultimately show ?thesis using 2 by simp
  next
    case 3
    have "d mod 10 < 10" by simp
    then have "is_digit (48 + d mod 10)" unfolding is_digit_def by linarith
    moreover have "20 + d mod 10 = d" using e 3 by simp
    ultimately show ?thesis using 3 by simp
  next
    case 4
    then have f: "30 + d mod 10 = d" using e by simp
    with assms have "d mod 10 = 0 \<or> d mod 10 = 1" by linarith
    then show ?thesis using 4 f by auto
  qed
qed

lemma parse_month_zfill:
  assumes "1 \<le> m" "m \<le> 12"
  shows "parse_month [48 + m div 10, 48 + m mod 10] = Some m"
proof -
  have e: "m = 10 * (m div 10) + m mod 10" by simp
  have "m div 10 = 0 \<or> m div 10 = 1" using assms(2) by presburger
  then show ?thesis
  proof
    assume 1: "m div 10 = 0"
    then have "m mod 10 = m" using e by simp
    with 1 assms show ?thesis by simp
  next
    assume 2: "m div 10 = 1"
    then have f: "10 + m mod 10 = m" using e by simp
    with assms have "m mod 10 \<le> 2" by linarith
    with 2 f show ?thesis by simp
  qed
qed

lemma parse_year_zfill:
  assumes "y < 10000"
  shows "parse_year [48 + y div 1000, 48 + y div 100 mod 10, 48 + y div 10 mod 10, 48 + y mod 10]
         = Some y"
proof -
  have a: "y div 1000 < 10" using assms by simp
  have b: "y div 100 mod 10 < 10" "y div 10 mod 10 < 10" "y mod 10 < 10" by simp_all
  have q: "y div 10 div 10 = y div 100" "y div 100 div 10 = y div 1000"
    by (simp_all add: div_mult2_eq [symmetric])
  have 1: "10 * (y div 10) + y mod 10 = y" by simp
  have 2: "10 * (y div 100) + y div 10 mod 10 = y div 10"
    using mult_div_mod_eq [of 10 "y div 10"] by (simp only: q)
  have 3: "10 * (y div 1000) + y div 100 mod 10 = y div 100"
    using mult_div_mod_eq [of 10 "y div 100"] by (simp only: q)
  have v: "10 * (10 * (10 * (y div 1000) + y div 100 mod 10) + y div 10 mod 10) + y mod 10 = y"
    by (simp only: 1 2 3)
  have d: "is_digit (48 + k)" if "k < 10" for k using that unfolding is_digit_def by linarith
  have dv: "digits_val [48 + y div 1000, 48 + y div 100 mod 10, 48 + y div 10 mod 10, 48 + y mod 10]
      = 10 * (10 * (10 * (y div 1000) + y div 100 mod 10) + y div 10 mod 10) + y mod 10"
    by (simp add: digits_val_def)
  show ?thesis
    unfolding parse_year_def dv v
    by (simp add: d [OF a] d [OF b(1)] d [OF b(2)] d [OF b(3)])
qed

lemma strptime_fields:
  assumes "46 \<notin> set ds" "46 \<notin> set ms"
  shows "strptime_dmy (ds @ 46 # ms @ 46 # ys) =
           (case (parse_day ds, parse_month ms, parse_year ys) of
              (Some dd, Some mm, Some yy) \<Rightarrow> make_date yy mm dd
            | _ \<Rightarrow> None)"
proof -
  have 1: "takeWhile (\<lambda>c. c \<noteq> 46) (ds @ 46 # r) = ds" for r
    using assms(1) by (induction ds) auto
  have 2: "dropWhile (\<lambda>c. c \<noteq> 46) (ds @ 46 # r) = 46 # r" for r
    using assms(1) by (induction ds) auto
  have 3: "takeWhile (\<lambda>c. c \<noteq> 46) (ms @ 46 # r) = ms" for r
    using assms(2) by (induction ms) auto
  have 4: "dropWhile (\<lambda>c. c \<noteq> 46) (ms @ 46 # r) = 46 # r" for r
    using assms(2) by (induction ms) auto
  show ?thesis unfolding strptime_dmy_def Let_def 1 2 by (simp only: list.case 3 4)
qed

lemma strftime_fields:
  assumes "make_date y m d = Some dt"
  shows "strftime_dmy dt =
           [48 + d div 10, 48 + d mod 10, 46, 48 + m div 10, 48 + m mod 10, 46] @ nat_digits y"
proof -
  from assms have r: "m \<le> 12" "d \<le> days_in_month y m"
    and dt: "dt = \<lparr>year = y, month = m, day = d\<rparr>"
    by (auto simp: make_date_def split: if_splits)
  have "d \<le> 31" using r(2) by (simp add: days_in_month_def split: if_splits)
  then show ?thesis using r(1) by (simp add: strftime_dmy_def dt zfill2_digits)
qed

lemma strptime_strftime:
  assumes "make_date y m d = Some dt" "1000 \<le> y"
  shows "strptime_dmy (strftime_dmy dt) = Some dt"
proof -
  from assms have r: "1 \<le> y" "y \<le> 9999" "1 \<le> m" "m \<le> 12" "1 \<le> d" "d \<le> days_in_month y m"
    by (auto simp: make_date_def split: if_splits)
  have d31: "d \<le> 31" using r(6) by (simp add: days_in_month_def split: if_splits)
  have y4: "y < 10000" using r(2) by simp
  let ?ds = "[48 + d div 10, 48 + d mod 10]"
  let ?ms = "[48 + m div 10, 48 + m mod 10]"
  let ?ys = "[48 + y div 1000, 48 + y div 100 mod 10, 48 + y div 10 mod 10, 48 + y mod 10]"
  have s: "strftime_dmy dt = ?ds @ 46 # ?ms @ 46 # ?ys"
    by (simp add: strftime_fields [OF assms(1)] nat_digits_four [OF assms(2) y4])
  have n: "46 \<notin> set ?ds" "46 \<notin> set ?ms" by simp_all
  show ?thesis
    unfolding s strptime_fields [OF n]
    by (simp only: parse_day_zfill [OF r(5) d31] parse_month_zfill [OF r(3) r(4)]
        parse_year_zfill [OF y4] assms prod.case option.case)
qed

lemma strptime_short_year:
  "strptime_dmy (strftime_dmy \<lparr>year = 999, month = 1, day = 1\<rparr>) = None"
  by (simp add: strftime_dmy_def zfill_def nat_digits_small nat_digits_step strptime_dmy_def
      parse_year_def is_digit_def)

lemma compute_report_empty:
  "compute_report [] =
     Inr \<lparr>total_batons = NInt 0, total_sales = NInt 0, total_online = NInt 0,
          total_fop = NInt 0, total_expense = NInt 0, avg_margin = Finite 0,
          avg_online = Finite 0, avg_fop = Finite 0\<rparr>"
  by (simp add: compute_report_def average_def py_sum_def)

text \<open>
  C8. Each of the three margin fields is the average under the format \<open>.2f\<close> followed by a
  percent sign. That is the integer part, a dot and exactly two digits when the average is
  a finite float, whatever its precision, so 12.0 gives \<open>12.00%\<close>; an average that is not
  finite gives its name, \<open>inf\<close>, \<open>-inf\<close> or \<open>nan\<close>. Every other numeric field is \<open>str\<close> of the
  value, which fixes no number of decimals: \<open>500.0\<close>, \<open>12.5\<close>, \<open>0.25\<close>, \<open>1e+16\<close>, and \<open>0\<close> for
  the integer 0 that an empty sum leaves. The header gives both dates as day, month and
  year with dots between, day and month with two digits; from the year 1000 on, the text
  of a date is read back as that date by \<open>strptime\<close> under \<open>%d.%m.%Y\<close>.
\<close>

theorem format_report_fields:
  "(two_decimals (fmt_2f x) \<longleftrightarrow> (\<exists>q. to_float64 x = Finite q))
   \<and> fmt_2f (Finite 12) @ asc ''%'' = asc ''12.00%''
   \<and> fmt_2f PosInf = asc ''inf'' \<and> fmt_2f NegInf = asc ''-inf'' \<and> fmt_2f NaN = asc ''nan''
   \<and> format_report start_date end_date stats =
       label_header @ strftime_dmy start_date @ [8211] @ strftime_dmy end_date @ [10, 10] @
       label_batons @ py_str (total_batons stats) @ [10] @
       label_sales @ py_str (total_sales stats) @ [10, 10] @
       label_online @ py_str (total_online stats) @ [10] @
       label_fop @ py_str (total_fop stats) @ [10, 10] @
       label_expense @ py_str (total_expense stats) @ [10, 10] @
       label_avg_margin @ fmt_2f (avg_margin stats) @ asc ''%'' @ [10] @
       label_avg_online @ fmt_2f (avg_online stats) @ asc ''%'' @ [10] @
       label_avg_fop @ fmt_2f (avg_fop stats) @ asc ''%'' @ [10]
   \<and> py_str (NFloat x) = float_str x
   \<and> float_str (Finite 500) = asc ''500.0''
   \<and> float_str (Finite (25/2)) = asc ''12.5''
   \<and> float_str (Finite (1/4)) = asc ''0.25''
   \<and> float_str (Finite (10 ^ 16)) = asc ''1e+16''
   \<and> py_str (NInt 0) = asc ''0''
   \<and> strftime_dmy \<lparr>year = 2024, month = 3, day = 5\<rparr> = asc ''05.03.2024''
   \<and> strftime_dmy \<lparr>year = 999, month = 1, day = 1\<rparr> = asc ''01.01.999''
   \<and> (make_date y m d = Some dt \<longrightarrow>
        strftime_dmy dt =
          [48 + d div 10, 48 + d mod 10, 46, 48 + m div 10, 48 + m mod 10, 46] @ nat_digits y
        \<and> (1000 \<le> y \<longrightarrow> strptime_dmy (strftime_dmy dt) = Some dt))"
proof -
  have p: "asc ''%'' = [37]" by (simp add: asc_def)
  have a: "fmt_2f (Finite 12) @ asc ''%'' = asc ''12.00%''"
    by (simp add: fmt_2f_twelve asc_def)
  have b: "py_str (NFloat x) = float_str x" by (simp add: py_str_def)
  have d: "format_report start_date end_date stats =
       label_header @ strftime_dmy start_date @ [8211] @ strftime_dmy end_date @ [10, 10] @
       label_batons @ py_str (total_batons stats) @ [10] @
       label_sales @ py_str (total_sales stats) @ [10, 10] @
       label_online @ py_str (total_online stats) @ [10] @
       label_fop @ py_str (total_fop stats) @ [10, 10] @
       label_expense @ py_str (total_expense stats) @ [10, 10] @
       label_avg_margin @ fmt_2f (avg_margin stats) @ asc ''%'' @ [10] @
       label_avg_online @ fmt_2f (avg_online stats) @ asc ''%'' @ [10] @
       label_avg_fop @ fmt_2f (avg_fop stats) @ asc ''%'' @ [10]"
    by (simp add: format_report_def Let_def p)
  have e: "make_date y m d = Some dt \<longrightarrow>
        strftime_dmy dt =
          [48 + d div 10, 48 + d mod 10, 46, 48 + m div 10, 48 + m mod 10, 46] @ nat_digits y
        \<and> (1000 \<le> y \<longrightarrow> strptime_dmy (strftime_dmy dt) = Some dt)"
    using strftime_fields [of y m d dt] strptime_strftime [of y m d dt] by blast
  show ?thesis
    by (rule conjI [OF fmt_2f_two_decimals_iff conjI [OF a conjI [OF fmt_2f_names(1)
          conjI [OF fmt_2f_names(2) conjI [OF fmt_2f_names(3) conjI [OF d conjI [OF b
          conjI [OF float_str_examples(1) conjI [OF float_str_examples(2)
          conjI [OF float_str_examples(3) conjI [OF float_str_examples(5)
          conjI [OF py_str_zero conjI [OF strftime_examples(1)
          conjI [OF strftime_examples(2) e]]]]]]]]]]]]]])
qed

theorem format_report_fields_witness:
  "to_float64 (Finite (1/8)) = Finite (1/8)
   \<and> two_decimals (fmt_2f (Finite (1/8)))
   \<and> fmt_2f (Finite (1/8)) = asc ''0.12''
   \<and> make_date 2024 2 29 = Some \<lparr>year = 2024, month = 2, day = 29\<rparr>
   \<and> (1000::nat) \<le> 2024
   \<and> strftime_dmy \<lparr>year = 2024, month = 2, day = 29\<rparr> = asc ''29.02.2024''
   \<and> strptime_dmy (strftime_dmy \<lparr>year = 2024, month = 2, day = 29\<rparr>)
       = Some \<lparr>year = 2024, month = 2, day = 29\<rparr>"
proof -
  have f: "to_float64 (Finite (1/8)) = Finite (1/8)"
    by (simp add: to_float64_def round64_eval)
  have a: "make_date 2024 2 29 = Some \<lparr>year = 2024, month = 2, day = 29\<rparr>"
    by (simp add: make_date_def days_in_month_def is_leap_def)
  have y: "(1000::nat) \<le> 2024" by simp
  have n: "[48 + 29 div 10, 48 + 29 mod 10, 46, 48 + 2 div 10, 48 + 2 mod 10, 46] @
             nat_digits 2024 = asc ''29.02.2024''"
    by (simp add: asc_def nat_digits_small nat_digits_step)
  note t = format_report_fields [of "Finite (1/8)" "\<lparr>year = 2024, month = 2, day = 29\<rparr>"
      "\<lparr>year = 2024, month = 2, day = 29\<rparr>" _ 2024 2 29 "\<lparr>year = 2024, month = 2, day = 29\<rparr>"]
  from t f have 1: "two_decimals (fmt_2f (Finite (1/8)))" by blast
  from t a y have 2: "strptime_dmy (strftime_dmy \<lparr>year = 2024, month = 2, day = 29\<rparr>)
       = Some \<lparr>year = 2024, month = 2, day = 29\<rparr>" by blast
  from t a have "strftime_dmy \<lparr>year = 2024, month = 2, day = 29\<rparr> =
      [48 + 29 div 10, 48 + 29 mod 10, 46, 48 + 2 div 10, 48 + 2 mod 10, 46] @ nat_digits 2024"
    by blast
  then have 3: "strftime_dmy \<lparr>year = 2024, month = 2, day = 29\<rparr> = asc ''29.02.2024''"
    by (simp only: n)
  show ?thesis
    by (rule conjI [OF f conjI [OF 1 conjI [OF fmt_2f_examples(1) conjI [OF a conjI [OF y
          conjI [OF 3 2]]]]]])
qed

text \<open>
  Two ways in which a report departs from two decimals on every margin and a float text on
  every other field. The cell texts \<open>nan\<close> and \<open>inf\<close> are floats for \<open>parse_number\<close>; the
  average of such margins is \<open>nan\<close> or \<open>inf\<close>, and its field reads \<open>nan%\<close> or \<open>inf%\<close>, without
  decimals. And the totals of a report over no rows are the integer 0, the start value of
  \<open>sum\<close>, which prints as \<open>0\<close>, whereas the float 0.0 prints as \<open>0.0\<close>.
\<close>

theorem format_report_counterexample:
  "parse_number (PStr (asc ''nan'')) = Inr NaN
   \<and> average [NaN] = Inr NaN
   \<and> fmt_2f NaN @ asc ''%'' = asc ''nan%''
   \<and> \<not> two_decimals (fmt_2f NaN)
   \<and> parse_number (PStr (asc ''inf'')) = Inr PosInf
   \<and> average [PosInf] = Inr PosInf
   \<and> fmt_2f PosInf @ asc ''%'' = asc ''inf%''
   \<and> \<not> two_decimals (fmt_2f PosInf)
   \<and> compute_report [] =
       Inr \<lparr>total_batons = NInt 0, total_sales = NInt 0, total_online = NInt 0,
            total_fop = NInt 0, total_expense = NInt 0, avg_margin = Finite 0,
            avg_online = Finite 0, avg_fop = Finite 0\<rparr>
   \<and> py_str (NInt 0) = asc ''0''
   \<and> float_str (num_float (NInt 0)) = asc ''0.0''
   \<and> py_str (NInt 0) \<noteq> float_str (num_float (NInt 0))"
proof -
  have 1: "parse_number (PStr (asc ''nan'')) = Inr NaN" by (simp add: str_defs)
  have 2: "average [NaN] = Inr NaN" by (simp add: average_eq)
  have 3: "fmt_2f NaN @ asc ''%'' = asc ''nan%''" by (simp add: fmt_2f_names asc_def)
  have 4: "\<not> two_decimals (fmt_2f NaN)" by (simp add: fmt_2f_names names_not_two_decimals)
  have 5: "parse_number (PStr (asc ''inf'')) = Inr PosInf" by (simp add: str_defs)
  have 6: "average [PosInf] = Inr PosInf" by (simp add: average_eq)
  have 7: "fmt_2f PosInf @ asc ''%'' = asc ''inf%''" by (simp add: fmt_2f_names asc_def)
  have 8: "\<not> two_decimals (fmt_2f PosInf)" by (simp add: fmt_2f_names names_not_two_decimals)
  have 9: "float_str (num_float (NInt 0)) = asc ''0.0''" by (simp add: float_str_zero)
  have 10: "py_str (NInt 0) \<noteq> float_str (num_float (NInt 0))"
    unfolding py_str_zero 9 by (simp add: asc_def)
  show ?thesis
    by (rule conjI [OF 1 conjI [OF 2 conjI [OF 3 conjI [OF 4 conjI [OF 5 conjI [OF 6
          conjI [OF 7 conjI [OF 8 conjI [OF compute_report_empty conjI [OF py_str_zero
          conjI [OF 9 10]]]]]]]]]]])
qed

end
